theory Spec2Isabelle
  imports Main "HOL-Library.Code_Target_Nat"
begin

unbundle bit_operations_syntax

section \<open>Machine integers\<close>

text \<open>
  The unsigned 32-bit and 64-bit values of the C source (\<open>uint32_t\<close>, \<open>uint64_t\<close>) are
  natural numbers, and every arithmetic operation that can wrap is followed by the
  reduction modulo the width. The signed 64-bit values (\<open>long long\<close>) are integers; the
  source guards the one addition on a count that could leave the range, and the
  running total wraps as two's complement.
\<close>

definition u32 :: "nat \<Rightarrow> nat" where
  "u32 n = n mod 2 ^ 32"

definition u64 :: "nat \<Rightarrow> nat" where
  "u64 n = n mod 2 ^ 64"

definition sub32 :: "nat \<Rightarrow> nat \<Rightarrow> nat" where
  "sub32 a b = (a + 2 ^ 32 - b mod 2 ^ 32) mod 2 ^ 32"

definition sub64 :: "nat \<Rightarrow> nat \<Rightarrow> nat" where
  "sub64 a b = (a + 2 ^ 64 - b mod 2 ^ 64) mod 2 ^ 64"

definition LLONG_MAX :: int where
  "LLONG_MAX = 2 ^ 63 - 1"

definition s64 :: "int \<Rightarrow> int" where
  "s64 x = (x + 2 ^ 63) mod 2 ^ 64 - 2 ^ 63"

section \<open>Data model\<close>

text \<open>
  A cell is the pair of a key pointer and a count. The pointer is \<open>NULL\<close> (\<open>None\<close>) or
  owns a null-terminated string, held here without its terminator.
\<close>

record cell =
  key :: "string option"
  count :: int

definition empty_cell :: cell where
  "empty_cell = \<lparr>key = None, count = 0\<rparr>"

text \<open>
  The counter object. The HyperLogLog sketch is an external collaborator: its state is
  represented by the sequence of 32-bit hashes handed to \<open>HyperLogLog_add\<close>, of which
  its registers are a function.
\<close>

record ht =
  buckets :: nat
  hash_mask :: nat
  str_allocated :: nat
  total :: int
  size_ht :: nat
  table :: "cell list"
  histo :: "nat list"
  max_prune :: int
  hll :: "nat list"

datatype error = ValueError | OverflowError | MemoryError | RestoreError

section \<open>Construction\<close>

text \<open>
  The loop \<open>while (0 != w) hash_length++, w >>= 1\<close> of \<open>_init\<close>. It runs after the two
  range checks, so \<open>w\<close> is positive there and is taken as a natural number.
\<close>

function hash_length_loop :: "int \<Rightarrow> nat \<Rightarrow> int" where
  "hash_length_loop hash_length w =
     (if 0 \<noteq> w then hash_length_loop (hash_length + 1) (drop_bit 1 w) else hash_length)"
  by pat_completeness auto
termination
  by (relation "measure (\<lambda>(hl, w). w)") (auto simp: drop_bit_eq_div)

declare hash_length_loop.simps [simp del]

text \<open>
  \<open>_init\<close>: the argument \<open>w\<close> is the parsed \<open>long long\<close>; \<open>alloc_ok\<close> tells whether
  \<open>calloc\<close> returned the table. The object comes zeroed from \<open>tp_alloc\<close>, which is where
  \<open>str_allocated\<close> gets its 0.
\<close>

definition init :: "bool \<Rightarrow> int \<Rightarrow> error + ht" where
  "init alloc_ok w =
     (if w < 4 then Inl ValueError
      else if w > 0xFFFFFFFF then Inl ValueError
      else
        let hash_length = hash_length_loop (- 1) (nat w);
            hash_length = (if hash_length < 0 then 0 else hash_length);
            b = u32 (push_bit (nat hash_length) 1)
        in if \<not> alloc_ok then Inl MemoryError
           else Inr \<lparr>buckets = b, hash_mask = sub32 b 1, str_allocated = 0, total = 0,
                     size_ht = 0, table = replicate b empty_cell,
                     histo = replicate 256 0, max_prune = 0, hll = []\<rparr>)"


section \<open>Histogram bins\<close>

text \<open>
  The loop of \<open>_histo_addr\<close>: \<open>log_result\<close> is a \<open>uint8_t\<close>, \<open>h\<close> a \<open>long long\<close> above 15.
\<close>

function histo_loop :: "nat \<Rightarrow> int \<Rightarrow> nat \<times> int" where
  "histo_loop log_result h =
     (if h > 15 then histo_loop ((log_result + 1) mod 256) (drop_bit 1 h)
      else (log_result, h))"
  by pat_completeness auto
termination
  by (relation "measure (\<lambda>(l, h). nat h)") (auto simp: drop_bit_eq_div)

declare histo_loop.simps [simp del]

definition histo_addr :: "int \<Rightarrow> nat" where
  "histo_addr v =
     (if v < 0 then 0
      else if v < 16 then nat v
      else if v \<ge> 0x3C0000000 then 255
      else let (log_result, h) = histo_loop 1 v
           in (push_bit 3 log_result + nat (h AND 7)) mod 256)"

section \<open>Lookup\<close>

text \<open>
  \<open>hash\<close> stands for the external \<open>MurmurHash3_x86_32\<close> with seed 42, of which only
  the low 32 bits exist. \<open>_bucket\<close> feeds the sketch the full hash when \<open>store\<close> is
  set, then masks it.
\<close>

definition bucket :: "(string \<Rightarrow> nat) \<Rightarrow> ht \<Rightarrow> string \<Rightarrow> bool \<Rightarrow> nat \<times> ht" where
  "bucket hash self data store =
     (let b = u32 (hash data);
          self = (if store then self\<lparr>hll := hll self @ [b]\<rparr> else self)
      in (b AND hash_mask self, self))"

text \<open>
  The probe loop of \<open>_find_cell\<close>. Both strings are null-free, so \<open>strcmp\<close> is
  equality. The walk is cyclic over the table: if it has not stopped after as many steps
  as there are slots, it has seen every slot and never stops, which is the result
  \<open>None\<close>.
\<close>

fun find_loop :: "nat \<Rightarrow> cell list \<Rightarrow> nat \<Rightarrow> string \<Rightarrow> nat \<Rightarrow> nat option" where
  "find_loop 0 tbl hmask data b = None"
| "find_loop (Suc fuel) tbl hmask data b =
     (case key (tbl ! b) of
        None \<Rightarrow> Some b
      | Some k \<Rightarrow>
          if k \<noteq> data then find_loop fuel tbl hmask data (u32 (b + 1) AND hmask)
          else Some b)"

definition find_cell ::
  "(string \<Rightarrow> nat) \<Rightarrow> ht \<Rightarrow> string \<Rightarrow> bool \<Rightarrow> (nat \<times> ht) option" where
  "find_cell hash self data store =
     (let (b, self) = bucket hash self data store
      in case find_loop (buckets self) (table self) (hash_mask self) data b of
           None \<Rightarrow> None
         | Some cell \<Rightarrow> Some (cell, self))"

section \<open>Prune boundary\<close>

text \<open>The lower edge of a bin, as \<open>_prune_size\<close> and \<open>_print_histo\<close> compute it.\<close>

definition bin_min :: "int \<Rightarrow> int" where
  "bin_min index =
     (if index < 16 then index
      else push_bit (nat (drop_bit 3 index - 1)) (8 + (index AND 7)))"

function prune_scan :: "nat list \<Rightarrow> nat \<Rightarrow> int \<Rightarrow> nat \<Rightarrow> int" where
  "prune_scan hist required index removing =
     (if removing < required \<and> index < 255
      then prune_scan hist required (index + 1) (u32 (removing + hist ! nat index))
      else index)"
  by pat_completeness auto
termination
  by (relation "measure (\<lambda>(hs, r, i, m). nat (255 - i))") auto

declare prune_scan.simps [simp del]

definition prune_size :: "ht \<Rightarrow> int" where
  "prune_size self =
     (let required = sub32 (size_ht self) (drop_bit 1 (buckets self));
          index = prune_scan (histo self) required 0 0;
          boundary = bin_min index
      in boundary - 1)"

section \<open>Prune\<close>

text \<open>
  \<open>while (table[start].key) start++\<close>: the scan for the first empty slot has no bound
  of its own; past the last slot it reads outside the table, which is the result
  \<open>None\<close>.
\<close>

function first_empty :: "cell list \<Rightarrow> nat \<Rightarrow> nat option" where
  "first_empty tbl start =
     (if start \<ge> length tbl then None
      else if key (tbl ! start) \<noteq> None then first_empty tbl (start + 1)
      else Some start)"
  by pat_completeness auto
termination
  by (relation "measure (\<lambda>(tbl, start). length tbl - start)") auto

declare first_empty.simps [simp del]

text \<open>
  \<open>while (replace != i && table[replace].key) replace = (replace + 1) & mask\<close>, cyclic
  like the probe loop and bounded in the same way.
\<close>

fun seek :: "nat \<Rightarrow> cell list \<Rightarrow> nat \<Rightarrow> nat \<Rightarrow> nat \<Rightarrow> nat option" where
  "seek 0 tbl hmask i replace = None"
| "seek (Suc fuel) tbl hmask i replace =
     (if replace \<noteq> i \<and> key (tbl ! replace) \<noteq> None
      then seek fuel tbl hmask i (u32 (replace + 1) AND hmask)
      else Some replace)"

text \<open>The variables of the walk of \<open>_prune_int\<close>.\<close>

record walk =
  w_table :: "cell list"
  w_histo :: "nat list"
  w_str_allocated :: nat
  w_size :: nat
  w_i :: nat
  w_last_free :: nat

text \<open>One iteration of the \<open>do \<dots> while\<close> body; \<open>n\<close> is the number of slots.\<close>

definition prune_body :: "(string \<Rightarrow> nat) \<Rightarrow> nat \<Rightarrow> nat \<Rightarrow> int \<Rightarrow> walk \<Rightarrow> walk option" where
  "prune_body hash hmask n boundary w =
     (let i = u32 (w_i w + 1) AND hmask;
          tbl = w_table w
      in case key (tbl ! i) of
           Some current_key \<Rightarrow>
             let data_length = u32 (length current_key);
                 current_count = count (tbl ! i)
             in if current_count > boundary then
                  (let replace = u32 (hash current_key) AND hmask;
                       replace =
                         (if (sub32 i (w_last_free w) AND hmask) > (sub32 i replace AND hmask)
                          then i else replace)
                   in case seek n tbl hmask i replace of
                        None \<Rightarrow> None
                      | Some replace \<Rightarrow>
                          let w = (if replace \<noteq> i
                                   then w\<lparr>w_table :=
                                            tbl[replace := \<lparr>key = Some current_key,
                                                            count = current_count\<rparr>,
                                                i := empty_cell],
                                          w_last_free := i\<rparr>
                                   else w);
                              a = histo_addr current_count
                          in Some (w\<lparr>w_histo := (w_histo w)[a := u32 (w_histo w ! a + 1)],
                                     w_size := u32 (w_size w + 1),
                                     w_i := i\<rparr>))
                else
                  Some (w\<lparr>w_str_allocated :=
                             sub64 (w_str_allocated w) (u32 (data_length + 1)),
                           w_table := tbl[i := empty_cell],
                           w_last_free := i,
                           w_i := i\<rparr>)
         | None \<Rightarrow> Some (w\<lparr>w_last_free := i, w_i := i\<rparr>))"

fun prune_loop ::
  "nat \<Rightarrow> (string \<Rightarrow> nat) \<Rightarrow> nat \<Rightarrow> nat \<Rightarrow> int \<Rightarrow> nat \<Rightarrow> walk \<Rightarrow> walk option" where
  "prune_loop 0 hash hmask n boundary start w = None"
| "prune_loop (Suc fuel) hash hmask n boundary start w =
     (case prune_body hash hmask n boundary w of
        None \<Rightarrow> None
      | Some w' \<Rightarrow>
          if w_i w' \<noteq> start then prune_loop fuel hash hmask n boundary start w'
          else Some w')"

text \<open>
  \<open>_prune_int\<close>. The histogram has 256 entries, all zeroed before the walk. The walk
  visits each slot once, so \<open>buckets\<close> iterations are all it can take.
\<close>

definition prune_int :: "(string \<Rightarrow> nat) \<Rightarrow> ht \<Rightarrow> int \<Rightarrow> ht option" where
  "prune_int hash self boundary =
     (let self = (if boundary > max_prune self then self\<lparr>max_prune := boundary\<rparr> else self)
      in case first_empty (table self) 0 of
           None \<Rightarrow> None
         | Some start \<Rightarrow>
             (case prune_loop (buckets self) hash (hash_mask self) (buckets self) boundary start
                     \<lparr>w_table = table self, w_histo = replicate 256 0,
                      w_str_allocated = str_allocated self, w_size = 0,
                      w_i = start, w_last_free = start\<rparr> of
                None \<Rightarrow> None
              | Some w \<Rightarrow>
                  Some (self\<lparr>table := w_table w, histo := w_histo w,
                             str_allocated := w_str_allocated w, size_ht := w_size w\<rparr>)))"

section \<open>Insertion\<close>

text \<open>
  \<open>_allocate_cell\<close> returns the index of the cell with the state. The source does not
  check the \<open>malloc\<close> of the key copy; it is taken to succeed.
\<close>

definition allocate_cell :: "(string \<Rightarrow> nat) \<Rightarrow> ht \<Rightarrow> string \<Rightarrow> (nat \<times> ht) option" where
  "allocate_cell hash self data =
     (case find_cell hash self data True of
        None \<Rightarrow> None
      | Some (cell, self) \<Rightarrow>
          if key (table self ! cell) = None then
            (case (if size_ht self \<ge> u32 (drop_bit 2 (buckets self) * 3)
                   then (case prune_int hash self (prune_size self) of
                           None \<Rightarrow> None
                         | Some self \<Rightarrow> find_cell hash self data False)
                   else Some (cell, self)) of
               None \<Rightarrow> None
             | Some (cell, self) \<Rightarrow>
                 Some (cell,
                   self\<lparr>size_ht := u32 (size_ht self + 1),
                        str_allocated :=
                          u64 (str_allocated self + u32 (u32 (length data) + 1)),
                        table := (table self)[cell := \<lparr>key = Some data, count = 0\<rparr>],
                        histo := (histo self)[0 := u32 (histo self ! 0 + 1)]\<rparr>))
          else Some (cell, self))"

section \<open>Public operations\<close>

text \<open>
  \<open>_checkString\<close>: \<open>data\<close> is the byte buffer the host hands over, \<open>length data\<close> its
  length; the check fails when \<open>strlen\<close> stops before that length.
\<close>

definition checkString :: "string \<Rightarrow> bool" where
  "checkString data = (\<not> length (takeWhile (\<lambda>c. c \<noteq> CHR 0x00) data) < length data)"

text \<open>
  A public operation returns the error it raised, if any, with the state it leaves; the
  result \<open>None\<close> is an operation that does not return. The pointer \<open>_find_cell\<close> returns
  is never \<open>NULL\<close>, so the \<open>if (cell)\<close> tests of the source have a single branch.
\<close>

definition increment_obj ::
  "(string \<Rightarrow> nat) \<Rightarrow> ht \<Rightarrow> string \<Rightarrow> int \<Rightarrow> (error option \<times> ht) option" where
  "increment_obj hash self data increment =
     (if increment < 0 then Some (Some ValueError, self)
      else if increment = 0 then Some (None, self)
      else
        case allocate_cell hash self data of
          None \<Rightarrow> None
        | Some (cell, self) \<Rightarrow>
            if count (table self ! cell) > LLONG_MAX - increment
            then Some (Some OverflowError, self)
            else
              let self = self\<lparr>total := s64 (total self + increment)\<rparr>;
                  a = histo_addr (count (table self ! cell));
                  self = self\<lparr>histo := (histo self)[a := sub32 (histo self ! a) 1]\<rparr>;
                  self = self\<lparr>table := (table self)[cell := (table self ! cell)
                           \<lparr>count := count (table self ! cell) + increment\<rparr>]\<rparr>;
                  a = histo_addr (count (table self ! cell));
                  self = self\<lparr>histo := (histo self)[a := u32 (histo self ! a + 1)]\<rparr>
              in Some (None, self))"

definition increment ::
  "(string \<Rightarrow> nat) \<Rightarrow> ht \<Rightarrow> string \<Rightarrow> int \<Rightarrow> (error option \<times> ht) option" where
  "increment hash self data delta =
     (if \<not> checkString data then Some (Some ValueError, self)
      else increment_obj hash self data delta)"

text \<open>\<open>_setitem\<close>: \<open>pValue\<close> is \<open>None\<close> for a deletion.\<close>

definition setitem ::
  "(string \<Rightarrow> nat) \<Rightarrow> ht \<Rightarrow> string \<Rightarrow> int option \<Rightarrow> (error option \<times> ht) option" where
  "setitem hash self data pValue =
     (if \<not> checkString data then Some (Some ValueError, self)
      else
        case pValue of
          Some v \<Rightarrow>
            if v < 0 then Some (Some ValueError, self)
            else
              (case (if v \<noteq> 0 then allocate_cell hash self data
                     else find_cell hash self data False) of
                 None \<Rightarrow> None
               | Some (cell, self) \<Rightarrow>
                   let a = histo_addr (count (table self ! cell));
                       self = self\<lparr>histo := (histo self)[a := sub32 (histo self ! a) 1]\<rparr>;
                       a = histo_addr v;
                       self = self\<lparr>histo := (histo self)[a := u32 (histo self ! a + 1)]\<rparr>;
                       self = self\<lparr>total := s64 (total self + (v - count (table self ! cell)))\<rparr>;
                       self = self\<lparr>table := (table self)[cell := (table self ! cell)\<lparr>count := v\<rparr>]\<rparr>
                   in Some (None, self))
        | None \<Rightarrow>
            (case find_cell hash self data False of
               None \<Rightarrow> None
             | Some (cell, self) \<Rightarrow>
                 let a = histo_addr (count (table self ! cell));
                     self = self\<lparr>histo := (histo self)[a := sub32 (histo self ! a) 1]\<rparr>;
                     self = self\<lparr>histo := (histo self)[0 := u32 (histo self ! 0 + 1)]\<rparr>;
                     self = self\<lparr>total := s64 (total self - count (table self ! cell))\<rparr>;
                     self = self\<lparr>table := (table self)[cell := (table self ! cell)\<lparr>count := 0\<rparr>]\<rparr>
                 in Some (None, self)))"


definition total_get :: "ht \<Rightarrow> int" where
  "total_get self = total self"

text \<open>\<open>_size\<close>, the \<open>len\<close> of the counter: the cells with a positive count.\<close>

definition size_live :: "ht \<Rightarrow> nat" where
  "size_live self = sub32 (size_ht self) (histo self ! 0)"

text \<open>\<open>_prune\<close>, the explicit prune at a boundary of the caller.\<close>

definition prune :: "(string \<Rightarrow> nat) \<Rightarrow> ht \<Rightarrow> int \<Rightarrow> (error option \<times> ht) option" where
  "prune hash self boundary =
     (case prune_int hash self boundary of
        None \<Rightarrow> None
      | Some self \<Rightarrow> Some (None, self))"

section \<open>Reachable states\<close>

text \<open>
  The states a counter goes through: constructed, then changed by increments, sets,
  deletions and explicit prunes that return (automatic prunes run inside the first two).
  Keys arrive with an \<open>int\<close> length and numbers as \<open>long long\<close>.
\<close>

definition is_ll :: "int \<Rightarrow> bool" where
  "is_ll v = (- (2 ^ 63) \<le> v \<and> v \<le> LLONG_MAX)"

inductive reachable :: "(string \<Rightarrow> nat) \<Rightarrow> ht \<Rightarrow> bool" for hash :: "string \<Rightarrow> nat" where
  reach_init: "init True w = Inr self \<Longrightarrow> reachable hash self"
| reach_increment:
    "reachable hash self \<Longrightarrow> length data < 2 ^ 31 \<Longrightarrow> is_ll delta \<Longrightarrow>
     increment hash self data delta = Some (e, self') \<Longrightarrow> reachable hash self'"
| reach_setitem:
    "reachable hash self \<Longrightarrow> length data < 2 ^ 31 \<Longrightarrow> pred_option is_ll pValue \<Longrightarrow>
     setitem hash self data pValue = Some (e, self') \<Longrightarrow> reachable hash self'"
| reach_prune:
    "reachable hash self \<Longrightarrow> is_ll boundary \<Longrightarrow>
     prune hash self boundary = Some (e, self') \<Longrightarrow> reachable hash self'"

section \<open>Example states\<close>


section \<open>Invariants of the reachable states\<close>

text \<open>
  The geometry of the table: the capacity is a power of two from 4 to \<open>2 ^ 31\<close>, the
  mask is one less, and the table has as many cells.
\<close>

definition geom :: "ht \<Rightarrow> bool" where
  "geom self =
     ((\<exists>k \<in> {2..<32}. buckets self = 2 ^ k) \<and>
      hash_mask self = buckets self - 1 \<and>
      length (table self) = buckets self)"

text \<open>
  The four assignments with which \<open>_allocate_cell\<close> installs a key in an empty cell.
\<close>

definition fresh_cell :: "ht \<Rightarrow> nat \<Rightarrow> string \<Rightarrow> ht" where
  "fresh_cell self cell d =
     self\<lparr>size_ht := u32 (size_ht self + 1),
          str_allocated := u64 (str_allocated self + u32 (u32 (length d) + 1)),
          table := (table self)[cell := \<lparr>key = Some d, count = 0\<rparr>],
          histo := (histo self)[0 := u32 (histo self ! 0 + 1)]\<rparr>"

text \<open>
  A four-slot counter under a hash that sends a key to its length: the keys \<open>a\<close>,
  \<open>b\<close> and \<open>c\<close> all have slot 1 as their home.
\<close>

definition ex_hash :: "string \<Rightarrow> nat" where
  "ex_hash s = length s"

definition ex_counter :: "cell list \<Rightarrow> nat list \<Rightarrow> nat \<Rightarrow> nat \<Rightarrow> int \<Rightarrow> nat list \<Rightarrow> ht" where
  "ex_counter tbl hs sz sa tot sk =
     \<lparr>buckets = 4, hash_mask = 3, str_allocated = sa, total = tot, size_ht = sz,
      table = tbl, histo = hs, max_prune = 0, hll = sk\<rparr>"

definition ex0 :: ht where
  "ex0 = ex_counter [empty_cell, empty_cell, empty_cell, empty_cell] (replicate 256 0) 0 0 0 []"



definition ex2 :: ht where
  "ex2 = ex_counter [empty_cell, \<lparr>key = Some ''a'', count = 1\<rparr>,
                     \<lparr>key = Some ''b'', count = 2\<rparr>, empty_cell]
           ((replicate 256 0)[1 := 1, 2 := 1]) 2 4 3 [1, 1]"


text \<open>The state \<open>ex3\<close> pruned at boundary 1, and then with the key \<open>d\<close> allocated.\<close>

definition ex3p :: ht where
  "ex3p = (ex_counter [empty_cell, \<lparr>key = Some ''b'', count = 2\<rparr>,
                       \<lparr>key = Some ''c'', count = 3\<rparr>, empty_cell]
            ((replicate 256 0)[2 := 1, 3 := 1]) 2 4 6 [1, 1, 1])\<lparr>max_prune := 1\<rparr>"


definition ex_big :: ht where
  "ex_big = ex_counter [empty_cell, \<lparr>key = Some ''a'', count = 2 ^ 62\<rparr>, empty_cell, empty_cell]
              ((replicate 256 0)[255 := 1]) 1 2 (2 ^ 62) [1]"

definition ex_big2 :: ht where
  "ex_big2 = ex_counter [empty_cell, \<lparr>key = Some ''a'', count = 2 ^ 62\<rparr>, empty_cell, empty_cell]
              ((replicate 256 0)[255 := 1]) 1 2 (2 ^ 62) [1, 1]"

text \<open>The slot at which a survivor of the walk starts looking for its place.\<close>

definition replace0 :: "(string \<Rightarrow> nat) \<Rightarrow> nat \<Rightarrow> nat \<Rightarrow> nat \<Rightarrow> string \<Rightarrow> nat" where
  "replace0 hash hmask i last_free k =
     (let replace = u32 (hash k) AND hmask
      in if (sub32 i last_free AND hmask) > (sub32 i replace AND hmask) then i else replace)"

text \<open>
  A cell at offset \<open>d\<close> from the start \<open>s\<close> of the walk is well placed when its home
  slot lies at an offset \<open>e\<close> from 1 to \<open>d\<close> and no slot from there to \<open>d\<close> is empty.
\<close>

definition placed :: "(string \<Rightarrow> nat) \<Rightarrow> nat \<Rightarrow> nat \<Rightarrow> cell list \<Rightarrow> nat \<Rightarrow> bool" where
  "placed hash B s tbl d =
     (\<forall>k. key (tbl ! ((s + d) mod B)) = Some k \<longrightarrow>
        (\<exists>e. 1 \<le> e \<and> e \<le> d \<and> hash k mod B = (s + e) mod B \<and>
             (\<forall>e'. e \<le> e' \<and> e' \<le> d \<longrightarrow> key (tbl ! ((s + e') mod B)) \<noteq> None)))"

text \<open>
  The invariant of the walk after \<open>t\<close> iterations: the slots not yet visited are as
  they were; \<open>last_free\<close> is the last empty slot among those visited (or the start); the
  cells in visited slots are above the boundary and well placed.
\<close>

definition walk_inv ::
  "(string \<Rightarrow> nat) \<Rightarrow> nat \<Rightarrow> int \<Rightarrow> cell list \<Rightarrow> nat \<Rightarrow> nat \<Rightarrow> walk \<Rightarrow> bool" where
  "walk_inv hash B boundary tbl0 s t w =
     (length (w_table w) = B \<and> w_i w = (s + t) mod B \<and>
      (\<forall>d. t < d \<and> d \<le> B \<longrightarrow> w_table w ! ((s + d) mod B) = tbl0 ! ((s + d) mod B)) \<and>
      (\<exists>f\<le>t. w_last_free w = (s + f) mod B \<and> key (w_table w ! ((s + f) mod B)) = None \<and>
           (\<forall>d. f < d \<and> d \<le> t \<longrightarrow> key (w_table w ! ((s + d) mod B)) \<noteq> None)) \<and>
      (\<forall>d. 1 \<le> d \<and> d \<le> t \<longrightarrow>
           placed hash B s (w_table w) d \<and>
           (key (w_table w ! ((s + d) mod B)) \<noteq> None \<longrightarrow>
              boundary < count (w_table w ! ((s + d) mod B)))))"

text \<open>
  The counters of the walk: \<open>size\<close> and the histogram count the cells in the slots
  visited so far.
\<close>

definition visited :: "nat \<Rightarrow> nat \<Rightarrow> nat \<Rightarrow> cell list \<Rightarrow> (cell \<Rightarrow> bool) \<Rightarrow> nat set" where
  "visited B s t tbl P =
     {d. 1 \<le> d \<and> d \<le> t \<and> key (tbl ! ((s + d) mod B)) \<noteq> None \<and> P (tbl ! ((s + d) mod B))}"

definition walk_count :: "nat \<Rightarrow> nat \<Rightarrow> nat \<Rightarrow> walk \<Rightarrow> bool" where
  "walk_count B s t w =
     (w_size w = card (visited B s t (w_table w) (\<lambda>c. True)) \<and>
      length (w_histo w) = 256 \<and>
      (\<forall>b<256. w_histo w ! b =
           card (visited B s t (w_table w) (\<lambda>c. histo_addr (count c) = b))))"

text \<open>The bytes a cell owns: its key with the terminator.\<close>

definition key_bytes :: "cell \<Rightarrow> nat" where
  "key_bytes c = (case key c of None \<Rightarrow> 0 | Some k \<Rightarrow> length k + 1)"

text \<open>
  What the walk does to the contents: it only moves or clears cells, it keeps every
  cell above the boundary, and \<open>str_allocated\<close> follows the keys.
\<close>

definition walk_content :: "int \<Rightarrow> cell list \<Rightarrow> walk \<Rightarrow> bool" where
  "walk_content boundary tbl0 w =
     ((\<forall>c \<in> set (w_table w). c \<in> set tbl0 \<or> c = empty_cell) \<and>
      (\<forall>c \<in> set tbl0. key c \<noteq> None \<and> boundary < count c \<longrightarrow> c \<in> set (w_table w)) \<and>
      length (filter (\<lambda>c. key c \<noteq> None \<and> boundary < count c) (w_table w)) =
        length (filter (\<lambda>c. key c \<noteq> None \<and> boundary < count c) tbl0) \<and>
      w_str_allocated w = sum_list (map key_bytes (w_table w)))"

text \<open>The ideal bucket of a key: \<open>hash(key) & mask\<close>.\<close>

definition home :: "(string \<Rightarrow> nat) \<Rightarrow> ht \<Rightarrow> string \<Rightarrow> nat" where
  "home hash self k = u32 (hash k) AND hash_mask self"

text \<open>
  The probe-chain invariant in the form the lookup needs: for an occupied cell at index
  \<open>i\<close> with ideal bucket \<open>r\<close>, every slot of the cyclic range from \<open>r\<close> to \<open>i\<close>, both
  included, is occupied.
\<close>

definition chain_ok :: "(string \<Rightarrow> nat) \<Rightarrow> ht \<Rightarrow> bool" where
  "chain_ok hash self =
     (\<forall>i \<in> {..<buckets self}.
        case key (table self ! i) of
          None \<Rightarrow> True
        | Some k \<Rightarrow>
            (\<forall>x \<in> {..(i + buckets self - home hash self k) mod buckets self}.
               key (table self ! ((home hash self k + x) mod buckets self)) \<noteq> None))"

text \<open>
  The probe-chain invariant as the specification words it: no slot in the cyclic range
  \<open>(r, i]\<close> is empty.
\<close>

definition probe_chain :: "(string \<Rightarrow> nat) \<Rightarrow> ht \<Rightarrow> bool" where
  "probe_chain hash self =
     (\<forall>i \<in> {..<buckets self}.
        case key (table self ! i) of
          None \<Rightarrow> True
        | Some k \<Rightarrow>
            (\<forall>x \<in> {1..(i + buckets self - home hash self k) mod buckets self}.
               key (table self ! ((home hash self k + x) mod buckets self)) \<noteq> None))"

text \<open>
  The histogram invariant: \<open>size\<close> is the number of occupied cells, bin \<open>b\<close> of the
  histogram the number of those whose count falls in \<open>b\<close>; counts are not negative, and
  an empty cell has count 0.
\<close>

definition counts_ok :: "ht \<Rightarrow> bool" where
  "counts_ok self =
     (length (histo self) = 256 \<and>
      size_ht self = length (filter (\<lambda>c. key c \<noteq> None) (table self)) \<and>
      (\<forall>b \<in> {..<256}. histo self ! b =
          length (filter (\<lambda>c. key c \<noteq> None \<and> histo_addr (count c) = b) (table self))) \<and>
      (\<forall>c \<in> set (table self). 0 \<le> count c \<and> (key c = None \<longrightarrow> count c = 0)))"

text \<open>
  The keys: null-free, shorter than \<open>2 ^ 31\<close> bytes, and \<open>str_allocated\<close> is what they
  occupy.
\<close>

definition keys_ok :: "ht \<Rightarrow> bool" where
  "keys_ok self =
     ((\<forall>c \<in> set (table self).
         case key c of None \<Rightarrow> True | Some k \<Rightarrow> checkString k \<and> length k < 2 ^ 31) \<and>
      str_allocated self = sum_list (map key_bytes (table self)))"

definition ht_inv :: "(string \<Rightarrow> nat) \<Rightarrow> ht \<Rightarrow> bool" where
  "ht_inv hash self = (geom self \<and> chain_ok hash self \<and> counts_ok self \<and> keys_ok self)"

text \<open>
  The assignments by which \<open>increment\<close>, \<open>set\<close> and \<open>delete\<close> give a cell the count
  \<open>v\<close> and the counter the total \<open>tot\<close>: one less in the bin of the old count, one more
  in the bin of the new.
\<close>

definition set_count :: "ht \<Rightarrow> nat \<Rightarrow> int \<Rightarrow> int \<Rightarrow> ht" where
  "set_count self cell v tot =
     (let a = histo_addr (count (table self ! cell));
          h1 = (histo self)[a := sub32 (histo self ! a) 1];
          a' = histo_addr v;
          h2 = h1[a' := u32 (h1 ! a' + 1)]
      in self\<lparr>total := tot, histo := h2,
              table := (table self)[cell := (table self ! cell)\<lparr>count := v\<rparr>]\<rparr>)"

section \<open>The bins and the capacity\<close>

lemma histo_loop_bits:
  "2 ^ (b + 3) \<le> h \<Longrightarrow> h < 2 ^ (b + 4) \<Longrightarrow> l + b < 256 \<Longrightarrow>
   histo_loop l h = (l + b, h div 2 ^ b)"
proof (induction b arbitrary: l h)
  case 0
  then show ?case by (subst histo_loop.simps) simp
next
  case (Suc b)
  have "(16::int) \<le> 16 * 2 ^ b" by simp
  moreover have "16 * 2 ^ b \<le> h" using Suc.prems(1) by (simp add: power_add)
  ultimately have h16: "h > 15" by linarith
  have "(2 * 2 ^ (b + 3)) div 2 \<le> h div 2"
    using Suc.prems(1) by (intro zdiv_mono1) (simp_all add: power_add)
  then have lo: "2 ^ (b + 3) \<le> h div 2" by simp
  have "h < 2 * 2 ^ (b + 4)" using Suc.prems(2) by (simp add: power_add)
  then have hi: "h div 2 < 2 ^ (b + 4)" by linarith
  have l1: "(l + 1) mod 256 = l + 1" using Suc.prems(3) by simp
  have "histo_loop l h = histo_loop (l + 1) (h div 2)"
    using h16 l1 by (subst histo_loop.simps) (simp add: drop_bit_eq_div)
  also have "\<dots> = (l + 1 + b, (h div 2) div 2 ^ b)"
    using Suc.IH[OF lo hi] Suc.prems(3) by simp
  also have "(h div 2) div 2 ^ b = h div 2 ^ Suc b"
    by (simp add: zdiv_zmult2_eq)
  finally show ?case by simp
qed

lemma and7_bound: "nat ((x::int) AND 7) \<le> 7"
proof -
  have "x AND 7 \<le> 7" by (rule AND_upper2') simp_all
  then show ?thesis by linarith
qed

lemma histo_addr_mid:
  assumes "16 \<le> v" "v < 0x3C0000000" "2 ^ (b + 3) \<le> v" "v < 2 ^ (b + 4)"
  shows "histo_addr v = 8 * (b + 1) + nat ((v div 2 ^ b) AND 7)"
proof -
  have b30: "b \<le> 30"
  proof (rule ccontr)
    assume "\<not> b \<le> 30"
    then have "31 + 3 \<le> b + 3" by simp
    then have "(2::int) ^ (31 + 3) \<le> 2 ^ (b + 3)" by (rule power_increasing) simp
    with assms(2,3) show False by simp
  qed
  have hl: "histo_loop 1 v = (1 + b, v div 2 ^ b)"
    using histo_loop_bits[OF assms(3,4), of 1] b30 by simp
  have a7: "nat ((v div 2 ^ b) AND 7) \<le> 7" by (rule and7_bound)
  have "8 * (b + 1) + nat ((v div 2 ^ b) AND 7) < 256" using b30 a7 by simp
  then show ?thesis using assms(1,2) hl
    by (simp add: histo_addr_def push_bit_eq_mult)
qed

text \<open>
  Claim C3, as the code has it: a count from 0 to 15 is its own bin; a count of at least
  \<open>0x3C0000000\<close> is in bin 255; a count \<open>c\<close> between, of bit length \<open>b\<close>
  (\<open>2 ^ (b - 1) \<le> c < 2 ^ b\<close>), is in bin \<open>(b - 3) * 8 + ((c >> (b - 4)) & 7)\<close>. The
  multiplier of 8 is \<open>b - 3\<close>, the value of \<open>log_result\<close> after \<open>b - 4\<close> shifts, not
  \<open>b\<close>.
\<close>

theorem histo_addr_bin:
  "(0 \<le> c \<and> c \<le> 15 \<longrightarrow> histo_addr c = nat c) \<and>
   (c \<ge> 0x3C0000000 \<longrightarrow> histo_addr c = 255) \<and>
   (16 \<le> c \<and> c < 0x3C0000000 \<and> 2 ^ (b - 1) \<le> c \<and> c < 2 ^ b \<longrightarrow>
      histo_addr c = (b - 3) * 8 + nat (drop_bit (b - 4) c AND 7))"
proof (intro conjI impI)
  assume "0 \<le> c \<and> c \<le> 15"
  then show "histo_addr c = nat c" by (simp add: histo_addr_def)
next
  assume "c \<ge> 0x3C0000000"
  then show "histo_addr c = 255" by (simp add: histo_addr_def)
next
  assume a: "16 \<le> c \<and> c < 0x3C0000000 \<and> 2 ^ (b - 1) \<le> c \<and> c < 2 ^ b"
  have b5: "5 \<le> b"
  proof (rule ccontr)
    assume "\<not> 5 \<le> b"
    then have "b \<le> 4" by simp
    then have "(2::int) ^ b \<le> 2 ^ 4" by (rule power_increasing) simp
    with a show False by simp
  qed
  then have e: "b - 1 = (b - 4) + 3" "b = (b - 4) + 4" by simp_all
  have "histo_addr c = 8 * ((b - 4) + 1) + nat ((c div 2 ^ (b - 4)) AND 7)"
    using a e by (intro histo_addr_mid) auto
  also have "8 * ((b - 4) + 1) = (b - 3) * 8" using b5 by simp
  finally show "histo_addr c = (b - 3) * 8 + nat (drop_bit (b - 4) c AND 7)"
    by (simp add: drop_bit_eq_div)
qed

theorem histo_addr_bin_witness:
  "histo_addr 7 = nat 7 \<and> histo_addr (2 ^ 40) = 255 \<and>
   (2::int) ^ (10 - 1) \<le> 1000 \<and> (1000::int) < 2 ^ 10 \<and>
   histo_addr 1000 = (10 - 3) * 8 + nat (drop_bit (10 - 4) 1000 AND 7) \<and>
   histo_addr 1000 = 63"
  using histo_addr_bin[of 7 0] histo_addr_bin[of "2 ^ 40" 0] histo_addr_bin[of 1000 10]
  by (simp add: drop_bit_eq_div)

text \<open>
  With \<open>b\<close> itself as the multiplier the formula gives 40 for the count 16, of bit
  length 5, which the code puts in bin 16.
\<close>

theorem histo_addr_spec_formula_counterexample:
  "(2::int) ^ (5 - 1) \<le> 16 \<and> (16::int) < 2 ^ 5 \<and>
   histo_addr 16 = 16 \<and> 5 * 8 + nat (drop_bit (5 - 4) (16::int) AND 7) = 40"
  by code_simp

lemma hash_length_loop_bits:
  "2 ^ k \<le> w \<Longrightarrow> w < 2 ^ (k + 1) \<Longrightarrow> hash_length_loop hl w = hl + int k + 1"
proof (induction k arbitrary: w hl)
  case 0
  then have w: "w = 1" by simp
  have "hash_length_loop hl 1 = hash_length_loop (hl + 1) 0"
    by (subst hash_length_loop.simps) (simp add: drop_bit_eq_div)
  also have "\<dots> = hl + 1"
    by (subst hash_length_loop.simps) simp
  finally show ?case using w by simp
next
  case (Suc k)
  have "(1::nat) \<le> 2 ^ k" by simp
  moreover have "2 * 2 ^ k \<le> w" using Suc.prems(1) by simp
  ultimately have w0: "0 \<noteq> w" by linarith
  have lo: "2 ^ k \<le> w div 2" using Suc.prems(1) by simp
  have hi: "w div 2 < 2 ^ (k + 1)" using Suc.prems(2) by simp
  have "hash_length_loop hl w = hash_length_loop (hl + 1) (w div 2)"
    using w0 by (subst hash_length_loop.simps) (simp add: drop_bit_eq_div)
  then show ?case using Suc.IH[OF lo hi, of "hl + 1"] by simp
qed




section \<open>The prune boundary\<close>




lemma bin_min_255: "bin_min 255 = 0x3C0000000"
  by code_simp

lemma bin_min_mono_top: "0 \<le> i \<Longrightarrow> i \<le> 255 \<Longrightarrow> bin_min i \<le> 0x3C0000000"
proof (cases "i < 16")
  case True
  then show ?thesis by (simp add: bin_min_def)
next
  case False
  assume i: "0 \<le> i" "i \<le> 255"
  have a: "i AND 7 \<le> 7" by (rule AND_upper2') simp_all
  have a0: "0 \<le> i AND 7" using i by simp
  have d: "i div 8 \<le> 31" using i by simp
  have d1: "1 < i div 8" using False by simp
  have "nat (i div 8 - 1) \<le> 30" using d d1 by simp
  then have p: "(2::int) ^ nat (i div 8 - 1) \<le> 2 ^ 30" by (rule power_increasing) simp
  have "bin_min i = (8 + (i AND 7)) * 2 ^ nat (i div 8 - 1)"
    using False by (simp add: bin_min_def push_bit_eq_mult drop_bit_eq_div)
  also have "\<dots> \<le> 15 * 2 ^ 30"
    using a a0 p by (intro mult_mono) simp_all
  finally show ?thesis by simp
qed

lemma prune_scan_range:
  "0 \<le> index \<Longrightarrow> index \<le> 255 \<Longrightarrow>
   0 \<le> prune_scan hist required index removing \<and>
   prune_scan hist required index removing \<le> 255"
proof (induction hist required index removing rule: prune_scan.induct)
  case (1 hist required index removing)
  show ?case
  proof (cases "removing < required \<and> index < 255")
    case True
    then have "prune_scan hist required index removing =
                 prune_scan hist required (index + 1) (u32 (removing + hist ! nat index))"
      by (subst prune_scan.simps) simp
    moreover have "0 \<le> index + 1" "index + 1 \<le> 255" using True "1.prems" by simp_all
    ultimately show ?thesis using "1.IH"[OF True] by simp
  next
    case False
    then have "prune_scan hist required index removing = index"
      by (subst prune_scan.simps) auto
    then show ?thesis using "1.prems" by simp
  qed
qed




lemma prune_size_le: "prune_size self \<le> 0x3C0000000 - 1"
proof -
  let ?r = "prune_scan (histo self) (sub32 (size_ht self) (drop_bit 1 (buckets self))) 0 0"
  have "0 \<le> ?r \<and> ?r \<le> 255" by (rule prune_scan_range) simp_all
  then have "bin_min ?r \<le> 0x3C0000000" by (intro bin_min_mono_top) simp_all
  then show ?thesis by (simp add: prune_size_def)
qed

section \<open>Masks and wrap-around\<close>

lemma and_pow2_minus_1: "(a::nat) AND (2 ^ k - 1) = a mod 2 ^ k"
proof -
  have "a AND mask k = take_bit k a" by (simp add: take_bit_eq_mask)
  then show ?thesis by (simp add: mask_eq_exp_minus_1 take_bit_eq_mod)
qed

lemma u32_and_pow2:
  assumes "k \<le> 32"
  shows "u32 a AND (2 ^ k - 1) = a mod 2 ^ k"
proof -
  have "(2::nat) ^ k dvd 2 ^ 32" using assms by (rule le_imp_power_dvd)
  then have "a mod 2 ^ 32 mod 2 ^ k = a mod 2 ^ k" by (rule mod_mod_cancel)
  then show ?thesis unfolding u32_def and_pow2_minus_1 .
qed

lemma sub32_and_pow2:
  assumes "k \<le> 32" "j < 2 ^ k"
  shows "sub32 i j AND (2 ^ k - 1) = (i + 2 ^ k - j) mod 2 ^ k"
proof -
  obtain m where m: "(2::nat) ^ 32 = 2 ^ k * m"
    using assms(1) by (metis le_imp_power_dvd dvd_def)
  have "(2::nat) ^ k \<le> 2 ^ 32" using assms(1) by (rule power_increasing) simp
  then have j32: "j < 2 ^ 32" using assms(2) by linarith
  have m1: "1 \<le> m" using m by (cases m) auto
  have "i + 2 ^ 32 - j = (i + 2 ^ k - j) + 2 ^ k * (m - 1)"
  proof -
    have "2 ^ k * m = 2 ^ k + 2 ^ k * (m - 1)" using m1 by (cases m) auto
    then show ?thesis using m assms(2) by simp
  qed
  then have "(i + 2 ^ 32 - j) mod 2 ^ k = (i + 2 ^ k - j) mod 2 ^ k" by simp
  moreover have "sub32 i j AND (2 ^ k - 1) = (i + 2 ^ 32 - j) mod 2 ^ k"
    using j32 u32_and_pow2[OF assms(1), of "i + 2 ^ 32 - j"] by (simp add: sub32_def u32_def)
  ultimately show ?thesis by simp
qed

lemma geomD:
  assumes "geom self"
  obtains k where "2 \<le> k" "k \<le> 31" "buckets self = 2 ^ k" "hash_mask self = 2 ^ k - 1"
    "length (table self) = 2 ^ k"
  using assms unfolding geom_def by force

lemma geom_pos: "geom self \<Longrightarrow> 0 < buckets self"
  by (erule geomD) simp

lemma geom_step:
  assumes "geom self"
  shows "u32 (i + 1) AND hash_mask self = (i + 1) mod buckets self"
proof -
  from assms obtain k where k: "k \<le> 31" "buckets self = 2 ^ k" "hash_mask self = 2 ^ k - 1"
    by (rule geomD)
  then show ?thesis using u32_and_pow2[of k "i + 1"] by simp
qed

lemma geom_hash:
  assumes "geom self"
  shows "u32 x AND hash_mask self = x mod buckets self"
proof -
  from assms obtain k where k: "k \<le> 31" "buckets self = 2 ^ k" "hash_mask self = 2 ^ k - 1"
    by (rule geomD)
  then show ?thesis using u32_and_pow2[of k x] by simp
qed

lemma geom_dist:
  assumes "geom self" "j < buckets self"
  shows "sub32 i j AND hash_mask self = (i + buckets self - j) mod buckets self"
proof -
  from assms(1) obtain k where k: "k \<le> 31" "buckets self = 2 ^ k" "hash_mask self = 2 ^ k - 1"
    by (rule geomD)
  then show ?thesis using sub32_and_pow2[of k j i] assms(2) by simp
qed

section \<open>What the operations leave unchanged\<close>

lemma find_loop_lt:
  assumes "geom self"
  shows "b < buckets self \<Longrightarrow> find_loop n tbl (hash_mask self) d b = Some i \<Longrightarrow>
         i < buckets self"
proof (induction n arbitrary: b)
  case 0
  then show ?case by simp
next
  case (Suc n)
  have lt: "(b + 1) mod buckets self < buckets self" using geom_pos[OF assms] by simp
  show ?case
  proof (cases "key (tbl ! b)")
    case None
    then show ?thesis using Suc.prems by simp
  next
    case (Some k)
    show ?thesis
    proof (cases "k = d")
      case True
      then show ?thesis using Some Suc.prems by simp
    next
      case False
      then have "find_loop n tbl (hash_mask self) d ((b + 1) mod buckets self) = Some i"
        using Some Suc.prems(2) geom_step[OF assms, of b] by simp
      then show ?thesis using Suc.IH[OF lt] by simp
    qed
  qed
qed

lemma find_loop_key:
  "find_loop n tbl hmask d b = Some i \<Longrightarrow> key (tbl ! i) = None \<or> key (tbl ! i) = Some d"
  by (induction n arbitrary: b) (auto split: option.splits if_splits)

lemma find_cell_state:
  "find_cell hash self d store = Some (i, self') \<Longrightarrow>
   self' = (if store then self\<lparr>hll := hll self @ [u32 (hash d)]\<rparr> else self)"
  by (auto simp: find_cell_def bucket_def Let_def split: option.splits)

lemma find_cell_lt:
  assumes "geom self" "find_cell hash self d store = Some (i, self')"
  shows "i < buckets self"
proof -
  have "u32 (hash d) AND hash_mask self < buckets self"
    using geom_hash[OF assms(1)] geom_pos[OF assms(1)] by simp
  then show ?thesis using assms(2) find_loop_lt[OF assms(1)]
    by (auto simp: find_cell_def bucket_def Let_def split: option.splits if_splits)
qed

lemma find_cell_key:
  "find_cell hash self d store = Some (i, self') \<Longrightarrow>
   key (table self ! i) = None \<or> key (table self ! i) = Some d"
  by (auto simp: find_cell_def bucket_def Let_def split: option.splits if_splits
           dest: find_loop_key)

lemma prune_body_length:
  "prune_body hash hmask n boundary w = Some w' \<Longrightarrow>
   length (w_table w') = length (w_table w)"
  by (auto simp: prune_body_def Let_def split: option.splits if_splits)

lemma prune_loop_length:
  "prune_loop fuel hash hmask n boundary start w = Some w' \<Longrightarrow>
   length (w_table w') = length (w_table w)"
proof (induction fuel arbitrary: w)
  case 0
  then show ?case by simp
next
  case (Suc fuel)
  then show ?case
    by (auto split: option.splits if_splits dest: prune_body_length)
qed

lemma prune_int_frame:
  assumes "prune_int hash self boundary = Some self'"
  shows "buckets self' = buckets self" "hash_mask self' = hash_mask self"
    "hll self' = hll self" "total self' = total self"
    "length (table self') = length (table self)"
    "max_prune self' = max boundary (max_prune self)"
  using assms
  by (auto simp: prune_int_def Let_def split: option.splits if_splits
           dest: prune_loop_length)

lemma prune_int_geom: "geom self \<Longrightarrow> prune_int hash self boundary = Some self' \<Longrightarrow> geom self'"
  using prune_int_frame[of hash self boundary self'] by (simp add: geom_def)

lemma allocate_cell_cases:
  assumes "allocate_cell hash self d = Some (cell, self')"
  obtains
    (found) "find_cell hash self d True = Some (cell, self')"
      "key (table self' ! cell) \<noteq> None"
  | (fresh) s1 where "find_cell hash self d True = Some (cell, s1)"
      "key (table s1 ! cell) = None"
      "\<not> size_ht s1 \<ge> u32 (drop_bit 2 (buckets s1) * 3)"
      "self' = fresh_cell s1 cell d"
  | (pruned) c1 s1 s2 where "find_cell hash self d True = Some (c1, s1)"
      "key (table s1 ! c1) = None"
      "size_ht s1 \<ge> u32 (drop_bit 2 (buckets s1) * 3)"
      "prune_int hash s1 (prune_size s1) = Some s2"
      "find_cell hash s2 d False = Some (cell, s2)"
      "self' = fresh_cell s2 cell d"
proof -
  from assms obtain c1 s1 where f: "find_cell hash self d True = Some (c1, s1)"
    by (auto simp: allocate_cell_def split: option.splits)
  show thesis
  proof (cases "key (table s1 ! c1) = None")
    case False
    then show ?thesis using assms f found by (auto simp: allocate_cell_def)
  next
    case True
    show ?thesis
    proof (cases "size_ht s1 \<ge> u32 (drop_bit 2 (buckets s1) * 3)")
      case False
      then show ?thesis using assms f True fresh[of s1]
        by (simp add: allocate_cell_def fresh_cell_def) blast
    next
      case big: True
      then obtain s2 where p: "prune_int hash s1 (prune_size s1) = Some s2"
        using assms f True by (auto simp: allocate_cell_def split: option.splits)
      then obtain c3 s3 where g: "find_cell hash s2 d False = Some (c3, s3)"
        using assms f True big by (auto simp: allocate_cell_def split: option.splits)
      then have "s3 = s2" by (auto dest: find_cell_state)
      then show ?thesis using assms f True big p g pruned[of c1 s1 s2]
        by (simp add: allocate_cell_def fresh_cell_def) blast
    qed
  qed
qed

lemma allocate_cell_frame_conj:
  assumes "allocate_cell hash self d = Some (cell, self')"
  shows "hll self' = hll self @ [u32 (hash d)] \<and> total self' = total self \<and>
    buckets self' = buckets self \<and> hash_mask self' = hash_mask self \<and>
    length (table self') = length (table self)"
  using assms
proof (cases rule: allocate_cell_cases)
  case found
  then show ?thesis by (auto dest!: find_cell_state)
next
  case (fresh s1)
  then show ?thesis by (auto simp: fresh_cell_def dest!: find_cell_state)
next
  case (pruned c1 s1 s2)
  from pruned(1) have s1: "s1 = self\<lparr>hll := hll self @ [u32 (hash d)]\<rparr>"
    by (auto dest: find_cell_state)
  show ?thesis
    using prune_int_frame[OF pruned(4)] pruned(6) s1 by (simp add: fresh_cell_def)
qed

lemma allocate_cell_frame:
  assumes "allocate_cell hash self d = Some (cell, self')"
  shows "hll self' = hll self @ [u32 (hash d)]" "total self' = total self"
    "buckets self' = buckets self" "hash_mask self' = hash_mask self"
    "length (table self') = length (table self)"
  using allocate_cell_frame_conj[OF assms] by simp_all

lemma allocate_cell_geom:
  "geom self \<Longrightarrow> allocate_cell hash self d = Some (cell, self') \<Longrightarrow> geom self'"
  using allocate_cell_frame[of hash self d cell self'] by (simp add: geom_def)

section \<open>The geometry is invariant\<close>

lemma sub32_small:
  assumes "b \<le> a" "a < 2 ^ 32"
  shows "sub32 a b = a - b"
proof -
  define N :: nat where "N = 2 ^ 32"
  have aN: "a < N" using assms(2) by (simp add: N_def)
  have bN: "b mod N = b" using assms(1) aN by simp
  have "a + N - b = (a - b) + N" using assms(1) by simp
  then have "(a + N - b) mod N = (a - b) mod N" by simp
  also have "\<dots> = a - b" using aN by simp
  finally have "(a + N - b mod N) mod N = a - b" using bN by simp
  then show ?thesis unfolding sub32_def N_def .
qed

lemma init_geom:
  assumes "init a w = Inr self"
  shows "geom self"
proof -
  from assms have w: "4 \<le> w" "w \<le> 0xFFFFFFFF"
    by (auto simp: init_def split: if_splits)
  then have "1 \<le> nat w" by linarith
  then obtain k where k: "2 ^ k \<le> nat w" "nat w < 2 ^ (k + 1)"
    using ex_power_ivl1[of 2 "nat w"] by auto
  from w have "nat w < 4294967296" by linarith
  with k(1) have "(2::nat) ^ k < 4294967296" by (rule le_less_trans)
  then have k32: "(2::nat) ^ k < 2 ^ 32" by simp
  then have kl: "k < 32" by (simp only: power_strict_increasing_iff)
  have "(2::nat) ^ 2 < 2 ^ (k + 1)"
  proof -
    have "(2::nat) ^ 2 \<le> nat w" using w by simp
    then show ?thesis using k(2) by linarith
  qed
  then have kg: "2 < k + 1" by (simp only: power_strict_increasing_iff)
  have u: "u32 (2 ^ k) = 2 ^ k" using k32 by (simp add: u32_def)
  have hl: "hash_length_loop (- 1) (nat w) = int k"
    using hash_length_loop_bits[OF k, of "- 1"] by simp
  have one: "(1::nat) \<le> 2 ^ k" by simp
  have m: "sub32 (2 ^ k) 1 = 2 ^ k - 1"
    using one k32 by (intro sub32_small) simp_all
  have self: "self = \<lparr>buckets = 2 ^ k, hash_mask = 2 ^ k - 1, str_allocated = 0, total = 0,
                     size_ht = 0, table = replicate (2 ^ k) empty_cell,
                     histo = replicate 256 0, max_prune = 0, hll = []\<rparr>"
    using assms w hl u m by (simp add: init_def Let_def push_bit_eq_mult split: if_splits)
  have "k \<in> {2..<32}" using kl kg by simp
  then show ?thesis unfolding geom_def self by (intro conjI bexI[where x=k]) simp_all
qed

lemma increment_obj_frame:
  "increment_obj hash self d delta = Some (e, self') \<Longrightarrow>
   buckets self' = buckets self \<and> hash_mask self' = hash_mask self \<and>
   length (table self') = length (table self)"
  by (auto simp: increment_obj_def Let_def split: if_splits option.splits prod.splits
           dest!: allocate_cell_frame_conj)

lemma setitem_frame:
  "setitem hash self d pValue = Some (e, self') \<Longrightarrow>
   buckets self' = buckets self \<and> hash_mask self' = hash_mask self \<and>
   length (table self') = length (table self)"
  by (auto simp: setitem_def Let_def split: if_splits option.splits prod.splits
           dest!: allocate_cell_frame_conj find_cell_state)

lemma reachable_geom: "reachable hash self \<Longrightarrow> geom self"
proof (induction rule: reachable.induct)
  case (reach_init w self)
  then show ?case by (rule init_geom)
next
  case (reach_increment self d delta e self')
  then show ?case
    using increment_obj_frame[of hash self d delta e self']
    by (auto simp: increment_def geom_def split: if_splits)
next
  case (reach_setitem self d pValue e self')
  then show ?case
    using setitem_frame[of hash self d pValue e self'] by (auto simp: geom_def)
next
  case (reach_prune self boundary e self')
  then show ?case
    by (auto simp: prune_def split: option.splits dest: prune_int_geom)
qed

section \<open>Feeding the sketch\<close>



section \<open>Errors of an increment\<close>

lemma fresh_cell_count:
  "cell < length (table self) \<Longrightarrow> count (table (fresh_cell self cell d) ! cell) = 0"
  by (simp add: fresh_cell_def)

lemma allocate_cell_positive:
  assumes "geom self" "allocate_cell hash self d = Some (cell, self')"
    "0 < count (table self' ! cell)"
  shows "self' = self\<lparr>hll := hll self @ [u32 (hash d)]\<rparr>"
  using assms(2)
proof (cases rule: allocate_cell_cases)
  case found
  then show ?thesis by (auto dest: find_cell_state)
next
  case (fresh s1)
  then have s1: "s1 = self\<lparr>hll := hll self @ [u32 (hash d)]\<rparr>"
    by (auto dest: find_cell_state)
  have "cell < buckets self" using find_cell_lt[OF assms(1) fresh(1)] .
  then have "cell < length (table s1)" using assms(1) s1 by (simp add: geom_def)
  then show ?thesis using fresh(4) assms(3) fresh_cell_count[of cell s1 d] by simp
next
  case (pruned c1 s1 s2)
  then have s1: "s1 = self\<lparr>hll := hll self @ [u32 (hash d)]\<rparr>"
    by (auto dest: find_cell_state)
  then have "geom s1" using assms(1) by (simp add: geom_def)
  then have g2: "geom s2" using pruned(4) by (rule prune_int_geom)
  have "cell < buckets s2" using find_cell_lt[OF g2 pruned(5)] .
  then have "cell < length (table s2)" using g2 by (simp add: geom_def)
  then show ?thesis using pruned(6) assms(3) fresh_cell_count[of cell s2 d] by simp
qed

text \<open>
  Claim C6. A negative increment is a value error and an increment of 0 succeeds, both
  with the state untouched. For a positive \<open>long long\<close> increment on a reachable counter:
  when the count of the key's cell plus the increment is above the 64-bit signed
  maximum, the call signals an overflow and leaves total, histogram and table as they
  were. The state an overflow leaves is in every case the one \<open>_allocate_cell\<close>
  returned, so a cell it allocated stays; such a cell has count 0, which no \<open>long long\<close>
  increment overflows.
\<close>

theorem increment_obj_errors:
  "(delta < 0 \<longrightarrow> increment_obj hash self d delta = Some (Some ValueError, self)) \<and>
   (delta = 0 \<longrightarrow> increment_obj hash self d delta = Some (None, self)) \<and>
   (reachable hash self \<and> 0 < delta \<and> delta \<le> LLONG_MAX \<and>
    allocate_cell hash self d = Some (cell, self1) \<and>
    count (table self1 ! cell) + delta > LLONG_MAX \<longrightarrow>
      increment_obj hash self d delta = Some (Some OverflowError, self1) \<and>
      total self1 = total self \<and> histo self1 = histo self \<and> table self1 = table self) \<and>
   (0 < delta \<and> increment_obj hash self d delta = Some (Some OverflowError, self') \<longrightarrow>
      (\<exists>c. allocate_cell hash self d = Some (c, self') \<and>
           count (table self' ! c) + delta > LLONG_MAX))"
proof -
  have c1: "delta < 0 \<longrightarrow> increment_obj hash self d delta = Some (Some ValueError, self)"
    by (simp add: increment_obj_def)
  have c2: "delta = 0 \<longrightarrow> increment_obj hash self d delta = Some (None, self)"
    by (simp add: increment_obj_def)
  have c3: "reachable hash self \<and> 0 < delta \<and> delta \<le> LLONG_MAX \<and>
    allocate_cell hash self d = Some (cell, self1) \<and>
    count (table self1 ! cell) + delta > LLONG_MAX \<longrightarrow>
      increment_obj hash self d delta = Some (Some OverflowError, self1) \<and>
      total self1 = total self \<and> histo self1 = histo self \<and> table self1 = table self"
  proof
    assume a: "reachable hash self \<and> 0 < delta \<and> delta \<le> LLONG_MAX \<and>
      allocate_cell hash self d = Some (cell, self1) \<and>
      count (table self1 ! cell) + delta > LLONG_MAX"
    then have pos: "0 < count (table self1 ! cell)" by linarith
    have g: "geom self" using a by (auto dest: reachable_geom)
    have s1: "self1 = self\<lparr>hll := hll self @ [u32 (hash d)]\<rparr>"
      using allocate_cell_positive[OF g _ pos] a by blast
    have "increment_obj hash self d delta = Some (Some OverflowError, self1)"
      using a by (simp add: increment_obj_def)
    then show "increment_obj hash self d delta = Some (Some OverflowError, self1) \<and>
        total self1 = total self \<and> histo self1 = histo self \<and> table self1 = table self"
      using s1 by simp
  qed
  have c4: "0 < delta \<and> increment_obj hash self d delta = Some (Some OverflowError, self') \<longrightarrow>
      (\<exists>c. allocate_cell hash self d = Some (c, self') \<and>
           count (table self' ! c) + delta > LLONG_MAX)"
    by (auto simp: increment_obj_def Let_def split: if_splits option.splits prod.splits)
  show ?thesis using c1 c2 c3 c4 by blast
qed

lemma ex0_init: "init True 4 = Inr ex0"
  by code_simp

lemma ex_big_reachable: "reachable ex_hash ex_big"
proof -
  have "reachable ex_hash ex0" using ex0_init by (rule reach_init)
  moreover have "length ''a'' < 2 ^ 31" by simp
  moreover have "is_ll (2 ^ 62)" by (simp add: is_ll_def LLONG_MAX_def)
  moreover have "increment ex_hash ex0 ''a'' (2 ^ 62) = Some (None, ex_big)" by code_simp
  ultimately show ?thesis by (rule reach_increment)
qed

theorem increment_obj_errors_witness:
  "increment_obj ex_hash ex0 ''a'' (- 1) = Some (Some ValueError, ex0) \<and>
   increment_obj ex_hash ex0 ''a'' 0 = Some (None, ex0) \<and>
   reachable ex_hash ex_big \<and> (0::int) < 2 ^ 62 \<and> 2 ^ 62 \<le> LLONG_MAX \<and>
   allocate_cell ex_hash ex_big ''a'' = Some (1, ex_big2) \<and>
   count (table ex_big2 ! 1) + 2 ^ 62 > LLONG_MAX \<and>
   increment_obj ex_hash ex_big ''a'' (2 ^ 62) = Some (Some OverflowError, ex_big2) \<and>
   total ex_big2 = total ex_big \<and> histo ex_big2 = histo ex_big \<and>
   table ex_big2 = table ex_big"
proof -
  have a: "allocate_cell ex_hash ex_big ''a'' = Some (1, ex_big2)" by code_simp
  have c: "count (table ex_big2 ! 1) + 2 ^ 62 > LLONG_MAX" by code_simp
  have l: "(2::int) ^ 62 \<le> LLONG_MAX" by (simp add: LLONG_MAX_def)
  have o: "increment_obj ex_hash ex_big ''a'' (2 ^ 62) = Some (Some OverflowError, ex_big2)"
    using increment_obj_errors[of "2 ^ 62" ex_hash ex_big "''a''" 1 ex_big2 ex_big2]
      ex_big_reachable a c l by simp
  show ?thesis
    using increment_obj_errors[of "- 1" ex_hash ex0 "''a''" 1 ex_big2 ex_big2]
      increment_obj_errors[of 0 ex_hash ex0 "''a''" 1 ex_big2 ex_big2]
      increment_obj_errors[of "2 ^ 62" ex_hash ex_big "''a''" 1 ex_big2 ex_big2]
      ex_big_reachable a c l o
    by simp
qed

section \<open>One iteration of the prune walk\<close>

lemma seek_stop:
  "seek n tbl hmask i r0 = Some r \<Longrightarrow> r = i \<or> key (tbl ! r) = None"
  by (induction n arbitrary: r0) (auto split: if_splits)

lemma cell_eq: "\<lparr>key = key c, count = count c\<rparr> = (c::cell)"
  by simp

lemma prune_body_cases:
  assumes "prune_body hash hmask n boundary w = Some w'"
    and "i = u32 (w_i w + 1) AND hmask"
  obtains
    (empty) "key (w_table w ! i) = None" "w' = w\<lparr>w_last_free := i, w_i := i\<rparr>"
  | (victim) k where "key (w_table w ! i) = Some k" "count (w_table w ! i) \<le> boundary"
      "w' = w\<lparr>w_str_allocated := sub64 (w_str_allocated w) (u32 (u32 (length k) + 1)),
              w_table := (w_table w)[i := empty_cell], w_last_free := i, w_i := i\<rparr>"
  | (stay) k where "key (w_table w ! i) = Some k" "count (w_table w ! i) > boundary"
      "seek n (w_table w) hmask i (replace0 hash hmask i (w_last_free w) k) = Some i"
      "w' = w\<lparr>w_histo := (w_histo w)[histo_addr (count (w_table w ! i)) :=
                 u32 (w_histo w ! histo_addr (count (w_table w ! i)) + 1)],
              w_size := u32 (w_size w + 1), w_i := i\<rparr>"
  | (move) k r where "key (w_table w ! i) = Some k" "count (w_table w ! i) > boundary"
      "seek n (w_table w) hmask i (replace0 hash hmask i (w_last_free w) k) = Some r"
      "r \<noteq> i" "key (w_table w ! r) = None"
      "w' = w\<lparr>w_table := (w_table w)[r := w_table w ! i, i := empty_cell],
              w_last_free := i,
              w_histo := (w_histo w)[histo_addr (count (w_table w ! i)) :=
                 u32 (w_histo w ! histo_addr (count (w_table w ! i)) + 1)],
              w_size := u32 (w_size w + 1), w_i := i\<rparr>"
proof (cases "key (w_table w ! i)")
  case None
  then show ?thesis using assms empty by (simp add: prune_body_def Let_def)
next
  case (Some k)
  show ?thesis
  proof (cases "count (w_table w ! i) > boundary")
    case False
    then show ?thesis using assms Some victim[of k]
      by (simp add: prune_body_def Let_def)
  next
    case True
    then obtain r where r:
      "seek n (w_table w) hmask i (replace0 hash hmask i (w_last_free w) k) = Some r"
      using assms Some
      by (auto simp: prune_body_def Let_def replace0_def split: option.splits)
    show ?thesis
    proof (cases "r = i")
      case True
      then show ?thesis using assms Some \<open>count (w_table w ! i) > boundary\<close> r stay[of k]
        by (simp add: prune_body_def Let_def replace0_def)
    next
      case False
      then have e: "key (w_table w ! r) = None" using seek_stop[OF r] by simp
      have c: "\<lparr>key = Some k, count = count (w_table w ! i)\<rparr> = w_table w ! i"
        using Some cell_eq[of "w_table w ! i"] by simp
      have "w' = w\<lparr>w_table := (w_table w)[r := \<lparr>key = Some k, count = count (w_table w ! i)\<rparr>,
                 i := empty_cell],
              w_last_free := i,
              w_histo := (w_histo w)[histo_addr (count (w_table w ! i)) :=
                 u32 (w_histo w ! histo_addr (count (w_table w ! i)) + 1)],
              w_size := u32 (w_size w + 1), w_i := i\<rparr>"
        using assms Some \<open>count (w_table w ! i) > boundary\<close> r False
        by (simp add: prune_body_def Let_def replace0_def)
      then have "w' = w\<lparr>w_table := (w_table w)[r := w_table w ! i, i := empty_cell],
              w_last_free := i,
              w_histo := (w_histo w)[histo_addr (count (w_table w ! i)) :=
                 u32 (w_histo w ! histo_addr (count (w_table w ! i)) + 1)],
              w_size := u32 (w_size w + 1), w_i := i\<rparr>"
        by (simp only: c)
      then show ?thesis using Some \<open>count (w_table w ! i) > boundary\<close> r False e
        by (rule move[of k r, rotated -1])
    qed
  qed
qed

section \<open>Positions along the walk\<close>

text \<open>
  The walk starts one past an empty slot \<open>s\<close> and goes once around the table. The slot
  it visits in its \<open>d\<close>-th iteration is \<open>(s + d) mod B\<close>; the offsets \<open>d\<close>, from 1 to
  \<open>B\<close>, put the cyclic table in a line.
\<close>

lemma offset_inj:
  fixes s d d' B :: nat
  assumes "(s + d) mod B = (s + d') mod B" "d \<le> d'" "d' < d + B"
  shows "d = d'"
proof (rule ccontr)
  assume "d \<noteq> d'"
  then have lt: "d < d'" using assms(2) by simp
  have "(s + d + (d' - d)) mod B = (s + d) mod B" using assms(1,2) by simp
  then have "B dvd (s + d + (d' - d)) - (s + d)"
    by (intro iffD1[OF mod_eq_dvd_iff_nat]) simp_all
  then have "(d' - d) mod B = 0" by simp
  moreover have "d' - d < B" using assms(2,3) by linarith
  ultimately show False using lt by simp
qed

lemma offset_suc: "((s + d) mod B + 1) mod B = (s + (d + 1)) mod (B::nat)"
proof -
  have "((s + d) mod B + 1) mod B = (s + d + 1) mod B" by (rule mod_add_left_eq)
  then show ?thesis by (simp add: add.assoc)
qed

lemma offset_dist:
  fixes s d f B :: nat
  assumes "0 < B" "f \<le> d" "d - f < B"
  shows "((s + d) mod B + B - (s + f) mod B) mod B = d - f"
proof -
  let ?i = "(s + d) mod B" and ?j = "(s + f) mod B"
  have i: "?i < B" and j: "?j < B" using assms(1) by simp_all
  have "(?j + (d - f)) mod B = (s + f + (d - f)) mod B" by (rule mod_add_left_eq)
  then have e: "(?j + (d - f)) mod B = ?i" using assms(2) by simp
  show ?thesis
  proof (cases "?j + (d - f) < B")
    case True
    then have "?j + (d - f) = ?i" using e by simp
    then have "?i + B - ?j = (d - f) + B" by linarith
    then show ?thesis using assms(3) by simp
  next
    case False
    then have "?j + (d - f) - B < B" using j assms(3) by linarith
    moreover have "(?j + (d - f)) mod B = (?j + (d - f) - B) mod B"
      using False by (simp add: le_mod_geq)
    ultimately have "?j + (d - f) - B = ?i" using e by simp
    then have "?i + B - ?j = d - f" using False by linarith
    then show ?thesis using assms(3) by simp
  qed
qed

text \<open>
  The seek loop from offset \<open>e\<close> returns the first slot at or after it that is empty or
  is the slot \<open>i\<close> of the walk.
\<close>

lemma seek_first:
  assumes "geom self"
  shows "e \<le> g \<Longrightarrow> g - e < fuel \<Longrightarrow>
    (\<forall>d. e \<le> d \<and> d < g \<longrightarrow>
       (s + d) mod buckets self \<noteq> i \<and> key (tbl ! ((s + d) mod buckets self)) \<noteq> None) \<Longrightarrow>
    (s + g) mod buckets self = i \<or> key (tbl ! ((s + g) mod buckets self)) = None \<Longrightarrow>
    seek fuel tbl (hash_mask self) i ((s + e) mod buckets self) = Some ((s + g) mod buckets self)"
proof (induction fuel arbitrary: e)
  case 0
  then show ?case by simp
next
  case (Suc fuel)
  show ?case
  proof (cases "e = g")
    case True
    then show ?thesis using Suc.prems(4) by auto
  next
    case False
    then have lt: "e < g" using Suc.prems(1) by simp
    then have go: "(s + e) mod buckets self \<noteq> i \<and> key (tbl ! ((s + e) mod buckets self)) \<noteq> None"
      using Suc.prems(3) by simp
    have nx: "u32 ((s + e) mod buckets self + 1) AND hash_mask self = (s + (e + 1)) mod buckets self"
      using geom_step[OF assms] offset_suc by simp
    have "seek fuel tbl (hash_mask self) i ((s + (e + 1)) mod buckets self) =
          Some ((s + g) mod buckets self)"
      using lt Suc.prems by (intro Suc.IH) auto
    then show ?thesis using go nx by simp
  qed
qed

section \<open>The step of the walk\<close>

lemma walk_step:
  assumes g: "geom self" and B: "B = buckets self"
    and orig: "s < B" "key (tbl0 ! s) = None"
      "\<forall>d. 1 \<le> d \<and> d \<le> B \<longrightarrow> placed hash B s tbl0 d"
    and inv: "walk_inv hash B boundary tbl0 s t w" and t: "t < B"
    and i: "i = (s + (t + 1)) mod B"
  obtains
    (empty) "key (w_table w ! i) = None"
      "prune_body hash (hash_mask self) B boundary w = Some (w\<lparr>w_last_free := i, w_i := i\<rparr>)"
  | (victim) k where "t + 1 < B" "key (w_table w ! i) = Some k"
      "count (w_table w ! i) \<le> boundary"
      "prune_body hash (hash_mask self) B boundary w =
         Some (w\<lparr>w_str_allocated := sub64 (w_str_allocated w) (u32 (u32 (length k) + 1)),
              w_table := (w_table w)[i := empty_cell], w_last_free := i, w_i := i\<rparr>)"
  | (stay) k e f where "t + 1 < B" "key (w_table w ! i) = Some k"
      "boundary < count (w_table w ! i)"
      "f < e" "e \<le> t + 1" "hash k mod B = (s + e) mod B"
      "f \<le> t" "w_last_free w = (s + f) mod B"
      "prune_body hash (hash_mask self) B boundary w =
         Some (w\<lparr>w_histo := (w_histo w)[histo_addr (count (w_table w ! i)) :=
                 u32 (w_histo w ! histo_addr (count (w_table w ! i)) + 1)],
              w_size := u32 (w_size w + 1), w_i := i\<rparr>)"
  | (move) k e r where "t + 1 < B" "key (w_table w ! i) = Some k"
      "boundary < count (w_table w ! i)"
      "1 \<le> e" "e \<le> r" "r \<le> t" "hash k mod B = (s + e) mod B"
      "key (w_table w ! ((s + r) mod B)) = None"
      "\<forall>d. e \<le> d \<and> d < r \<longrightarrow> key (w_table w ! ((s + d) mod B)) \<noteq> None"
      "prune_body hash (hash_mask self) B boundary w =
         Some (w\<lparr>w_table := (w_table w)[(s + r) mod B := w_table w ! i, i := empty_cell],
              w_last_free := i,
              w_histo := (w_histo w)[histo_addr (count (w_table w ! i)) :=
                 u32 (w_histo w ! histo_addr (count (w_table w ! i)) + 1)],
              w_size := u32 (w_size w + 1), w_i := i\<rparr>)"
proof -
  have Bpos: "0 < B" using geom_pos[OF g] B by simp
  from inv have wi: "w_i w = (s + t) mod B" and len: "length (w_table w) = B"
    and unch: "\<forall>d. t < d \<and> d \<le> B \<longrightarrow> w_table w ! ((s + d) mod B) = tbl0 ! ((s + d) mod B)"
    by (simp_all add: walk_inv_def)
  from inv obtain f where f: "f \<le> t" "w_last_free w = (s + f) mod B"
    "key (w_table w ! ((s + f) mod B)) = None"
    "\<forall>d. f < d \<and> d \<le> t \<longrightarrow> key (w_table w ! ((s + d) mod B)) \<noteq> None"
    unfolding walk_inv_def by blast
  have step: "u32 (w_i w + 1) AND hash_mask self = i"
    using geom_step[OF g, of "w_i w"] wi i B offset_suc[of s t B] by simp
  have iB: "i < B" using i Bpos by simp
  show thesis
  proof (cases "key (w_table w ! i)")
    case None
    then have "prune_body hash (hash_mask self) B boundary w = Some (w\<lparr>w_last_free := i, w_i := i\<rparr>)"
      using step by (simp add: prune_body_def Let_def)
    then show ?thesis using None empty by blast
  next
    case (Some k)
    have t1: "t + 1 < B"
    proof (rule ccontr)
      assume "\<not> t + 1 < B"
      then have tB: "t + 1 = B" using t by simp
      then have "i = s" using i orig(1) by simp
      moreover have "w_table w ! ((s + B) mod B) = tbl0 ! ((s + B) mod B)"
        using unch[rule_format, of B] t by simp
      ultimately show False using Some orig(1,2) by simp
    qed
    show ?thesis
    proof (cases "boundary < count (w_table w ! i)")
      case False
      then have "prune_body hash (hash_mask self) B boundary w =
         Some (w\<lparr>w_str_allocated := sub64 (w_str_allocated w) (u32 (u32 (length k) + 1)),
              w_table := (w_table w)[i := empty_cell], w_last_free := i, w_i := i\<rparr>)"
        using step Some by (simp add: prune_body_def Let_def)
      then show ?thesis using False Some t1 victim[of k] by simp
    next
      case True
      have "w_table w ! i = tbl0 ! i" using unch[rule_format, of "t + 1"] t1 i by simp
      then have "key (tbl0 ! ((s + (t + 1)) mod B)) = Some k" using Some i by simp
      moreover have "placed hash B s tbl0 (t + 1)" using orig(3)[rule_format, of "t + 1"] t1 by simp
      ultimately obtain e where e: "1 \<le> e" "e \<le> t + 1" "hash k mod B = (s + e) mod B"
        unfolding placed_def by blast
      have hk: "u32 (hash k) AND hash_mask self = (s + e) mod B"
        using geom_hash[OF g, of "hash k"] e(3) B by simp
      have d1: "sub32 i (w_last_free w) AND hash_mask self = t + 1 - f"
      proof -
        have "(s + f) mod B < buckets self" using Bpos B by simp
        then have "sub32 i ((s + f) mod B) AND hash_mask self =
                   (i + B - (s + f) mod B) mod B"
          using geom_dist[OF g, of "(s + f) mod B" i] B by simp
        also have "\<dots> = t + 1 - f"
          unfolding i using f(1) t1 by (intro offset_dist[OF Bpos]) simp_all
        finally show ?thesis using f(2) by simp
      qed
      have d2: "sub32 i ((s + e) mod B) AND hash_mask self = t + 1 - e"
      proof -
        have "(s + e) mod B < buckets self" using Bpos B by simp
        then have "sub32 i ((s + e) mod B) AND hash_mask self =
                   (i + B - (s + e) mod B) mod B"
          using geom_dist[OF g, of "(s + e) mod B" i] B by simp
        also have "\<dots> = t + 1 - e"
          unfolding i using e(2) t1 by (intro offset_dist[OF Bpos]) simp_all
        finally show ?thesis .
      qed
      have c: "\<lparr>key = Some k, count = count (w_table w ! i)\<rparr> = w_table w ! i"
        using Some cell_eq[of "w_table w ! i"] by simp
      show ?thesis
      proof (cases "f < e")
        case fe: True
        then have "t + 1 - e < t + 1 - f" using e(2) by linarith
        then have r0: "replace0 hash (hash_mask self) i (w_last_free w) k = i"
          unfolding replace0_def Let_def hk d1 d2 by simp
        have sk: "seek B (w_table w) (hash_mask self) i i = Some i"
          using Bpos by (cases B) simp_all
        have "prune_body hash (hash_mask self) B boundary w =
         Some (w\<lparr>w_histo := (w_histo w)[histo_addr (count (w_table w ! i)) :=
                 u32 (w_histo w ! histo_addr (count (w_table w ! i)) + 1)],
              w_size := u32 (w_size w + 1), w_i := i\<rparr>)"
          using step Some True r0 sk by (simp add: prune_body_def Let_def replace0_def)
        then show ?thesis using stay[of k f e] t1 Some True fe e f by simp
      next
        case ef: False
        then have "\<not> t + 1 - e < t + 1 - f" using e(2) f(1) by linarith
        then have r0: "replace0 hash (hash_mask self) i (w_last_free w) k = (s + e) mod B"
          unfolding replace0_def Let_def hk d1 d2 by simp
        define Q where "Q d \<longleftrightarrow> e \<le> d \<and> key (w_table w ! ((s + d) mod B)) = None" for d
        have Qf: "Q f" using ef f(3) by (simp add: Q_def)
        define r where "r = (LEAST d. Q d)"
        have Qr: "Q r" unfolding r_def using Qf by (rule LeastI)
        have rf: "r \<le> f" unfolding r_def using Qf by (rule Least_le)
        have rmin: "\<forall>d. e \<le> d \<and> d < r \<longrightarrow> key (w_table w ! ((s + d) mod B)) \<noteq> None"
        proof (intro allI impI)
          fix d assume d: "e \<le> d \<and> d < r"
          then have "\<not> Q d" unfolding r_def using not_less_Least by blast
          then show "key (w_table w ! ((s + d) mod B)) \<noteq> None" using d by (simp add: Q_def)
        qed
        have er: "e \<le> r" and rnone: "key (w_table w ! ((s + r) mod B)) = None"
          using Qr by (simp_all add: Q_def)
        have rt: "r \<le> t" using rf f(1) by simp
        have neq: "(s + d) mod B \<noteq> i" if "d \<le> t" for d
        proof
          assume "(s + d) mod B = i"
          then have "d = t + 1" unfolding i using that t1 by (intro offset_inj[of s d B]) simp_all
          then show False using that by simp
        qed
        have sk: "seek B (w_table w) (hash_mask self) i ((s + e) mod B) = Some ((s + r) mod B)"
          unfolding B
        proof (rule seek_first[OF g])
          show "e \<le> r" by (rule er)
          show "r - e < buckets self" using rt t B by simp
          show "\<forall>d. e \<le> d \<and> d < r \<longrightarrow>
            (s + d) mod buckets self \<noteq> i \<and> key (w_table w ! ((s + d) mod buckets self)) \<noteq> None"
            using rmin neq rt B by simp
          show "(s + r) mod buckets self = i \<or> key (w_table w ! ((s + r) mod buckets self)) = None"
            using rnone B by simp
        qed
        have ri: "(s + r) mod B \<noteq> i" using neq[OF rt] .
        have "prune_body hash (hash_mask self) B boundary w =
         Some (w\<lparr>w_table := (w_table w)[(s + r) mod B := \<lparr>key = Some k, count = count (w_table w ! i)\<rparr>,
                 i := empty_cell],
              w_last_free := i,
              w_histo := (w_histo w)[histo_addr (count (w_table w ! i)) :=
                 u32 (w_histo w ! histo_addr (count (w_table w ! i)) + 1)],
              w_size := u32 (w_size w + 1), w_i := i\<rparr>)"
          using step Some True r0 sk ri by (simp add: prune_body_def Let_def replace0_def)
        then have "prune_body hash (hash_mask self) B boundary w =
         Some (w\<lparr>w_table := (w_table w)[(s + r) mod B := w_table w ! i, i := empty_cell],
              w_last_free := i,
              w_histo := (w_histo w)[histo_addr (count (w_table w ! i)) :=
                 u32 (w_histo w ! histo_addr (count (w_table w ! i)) + 1)],
              w_size := u32 (w_size w + 1), w_i := i\<rparr>)"
          by (simp only: c)
        then show ?thesis using move[of k e r] t1 Some True e er rt rnone rmin by simp
      qed
    qed
  qed
qed

lemma walk_inv_step:
  assumes g: "geom self" and B: "B = buckets self"
    and orig: "s < B" "key (tbl0 ! s) = None"
      "\<forall>d. 1 \<le> d \<and> d \<le> B \<longrightarrow> placed hash B s tbl0 d"
    and inv: "walk_inv hash B boundary tbl0 s t w" and t: "t < B"
  shows "\<exists>w'. prune_body hash (hash_mask self) B boundary w = Some w' \<and>
              walk_inv hash B boundary tbl0 s (t + 1) w'"
proof -
  define i where "i = (s + (t + 1)) mod B"
  have Bpos: "0 < B" using geom_pos[OF g] B by simp
  have iB: "i < B" using i_def Bpos by simp
  from inv have len: "length (w_table w) = B"
    and unch: "\<forall>d. t < d \<and> d \<le> B \<longrightarrow> w_table w ! ((s + d) mod B) = tbl0 ! ((s + d) mod B)"
    and pl: "\<forall>d. 1 \<le> d \<and> d \<le> t \<longrightarrow>
           placed hash B s (w_table w) d \<and>
           (key (w_table w ! ((s + d) mod B)) \<noteq> None \<longrightarrow>
              boundary < count (w_table w ! ((s + d) mod B)))"
    by (simp_all add: walk_inv_def)
  from inv obtain f where f: "f \<le> t" "w_last_free w = (s + f) mod B"
    "key (w_table w ! ((s + f) mod B)) = None"
    "\<forall>d. f < d \<and> d \<le> t \<longrightarrow> key (w_table w ! ((s + d) mod B)) \<noteq> None"
    unfolding walk_inv_def by blast
  have neq: "(s + d) mod B \<noteq> i" if "d \<noteq> t + 1" "1 \<le> d" "d \<le> B" for d
  proof
    assume e: "(s + d) mod B = i"
    show False
    proof (cases "d \<le> t + 1")
      case True
      then have "d = t + 1" using e t that unfolding i_def
        by (intro offset_inj[of s d B]) simp_all
      then show False using that by simp
    next
      case False
      then have "t + 1 = d" using e t that unfolding i_def
        by (intro offset_inj[of s "t + 1" B]) simp_all
      then show False using that by simp
    qed
  qed
  show ?thesis
    using g B orig inv t i_def
  proof (cases rule: walk_step)
    case empty
    have "walk_inv hash B boundary tbl0 s (t + 1) (w\<lparr>w_last_free := i, w_i := i\<rparr>)"
      unfolding walk_inv_def
    proof (intro conjI)
      show "\<exists>f\<le>t + 1. w_last_free (w\<lparr>w_last_free := i, w_i := i\<rparr>) = (s + f) mod B \<and>
           key (w_table (w\<lparr>w_last_free := i, w_i := i\<rparr>) ! ((s + f) mod B)) = None \<and>
           (\<forall>d. f < d \<and> d \<le> t + 1 \<longrightarrow>
               key (w_table (w\<lparr>w_last_free := i, w_i := i\<rparr>) ! ((s + d) mod B)) \<noteq> None)"
        using empty(1) i_def by (intro exI[where x="t + 1"]) auto
      show "\<forall>d. 1 \<le> d \<and> d \<le> t + 1 \<longrightarrow>
        placed hash B s (w_table (w\<lparr>w_last_free := i, w_i := i\<rparr>)) d \<and>
        (key (w_table (w\<lparr>w_last_free := i, w_i := i\<rparr>) ! ((s + d) mod B)) \<noteq> None \<longrightarrow>
         boundary < count (w_table (w\<lparr>w_last_free := i, w_i := i\<rparr>) ! ((s + d) mod B)))"
      proof (intro allI impI)
        fix d assume d: "1 \<le> d \<and> d \<le> t + 1"
        show "placed hash B s (w_table (w\<lparr>w_last_free := i, w_i := i\<rparr>)) d \<and>
        (key (w_table (w\<lparr>w_last_free := i, w_i := i\<rparr>) ! ((s + d) mod B)) \<noteq> None \<longrightarrow>
         boundary < count (w_table (w\<lparr>w_last_free := i, w_i := i\<rparr>) ! ((s + d) mod B)))"
        proof (cases "d = t + 1")
          case True
          then show ?thesis using empty(1) i_def by (simp add: placed_def)
        next
          case False
          then show ?thesis using pl d by simp
        qed
      qed
    qed (use len unch i_def in simp_all)
    then show ?thesis using empty(2) by blast
  next
    case (victim k)
    let ?T = "(w_table w)[i := empty_cell]"
    let ?w = "w\<lparr>w_str_allocated := sub64 (w_str_allocated w) (u32 (u32 (length k) + 1)),
              w_table := ?T, w_last_free := i, w_i := i\<rparr>"
    have same: "?T ! ((s + d) mod B) = w_table w ! ((s + d) mod B)"
      if "d \<noteq> t + 1" "1 \<le> d" "d \<le> B" for d
      using neq[OF that] by simp
    have "walk_inv hash B boundary tbl0 s (t + 1) ?w"
      unfolding walk_inv_def
    proof (intro conjI)
      show "length (w_table ?w) = B" using len by simp
      show "w_i ?w = (s + (t + 1)) mod B" using i_def by simp
      show "\<forall>d. t + 1 < d \<and> d \<le> B \<longrightarrow> w_table ?w ! ((s + d) mod B) = tbl0 ! ((s + d) mod B)"
        using same unch by simp
      show "\<exists>f\<le>t + 1. w_last_free ?w = (s + f) mod B \<and>
           key (w_table ?w ! ((s + f) mod B)) = None \<and>
           (\<forall>d. f < d \<and> d \<le> t + 1 \<longrightarrow> key (w_table ?w ! ((s + d) mod B)) \<noteq> None)"
        using i_def iB len by (intro exI[where x="t + 1"]) (auto simp: empty_cell_def)
      show "\<forall>d. 1 \<le> d \<and> d \<le> t + 1 \<longrightarrow>
        placed hash B s (w_table ?w) d \<and>
        (key (w_table ?w ! ((s + d) mod B)) \<noteq> None \<longrightarrow>
         boundary < count (w_table ?w ! ((s + d) mod B)))"
      proof (intro allI impI)
        fix d assume d: "1 \<le> d \<and> d \<le> t + 1"
        show "placed hash B s (w_table ?w) d \<and>
        (key (w_table ?w ! ((s + d) mod B)) \<noteq> None \<longrightarrow>
         boundary < count (w_table ?w ! ((s + d) mod B)))"
        proof (cases "d = t + 1")
          case True
          then show ?thesis using i_def iB len by (simp add: placed_def empty_cell_def)
        next
          case False
          then have dt: "d \<le> t" using d by simp
          have p: "placed hash B s (w_table w) d" using pl d dt by simp
          have "placed hash B s ?T d"
            unfolding placed_def
          proof (intro allI impI)
            fix k' assume "key (?T ! ((s + d) mod B)) = Some k'"
            then have "key (w_table w ! ((s + d) mod B)) = Some k'"
              using same[of d] False d t by simp
            then obtain e where e: "1 \<le> e" "e \<le> d" "hash k' mod B = (s + e) mod B"
              "\<forall>e'. e \<le> e' \<and> e' \<le> d \<longrightarrow> key (w_table w ! ((s + e') mod B)) \<noteq> None"
              using p unfolding placed_def by blast
            have "\<forall>e'. e \<le> e' \<and> e' \<le> d \<longrightarrow> key (?T ! ((s + e') mod B)) \<noteq> None"
            proof (intro allI impI)
              fix e' assume e': "e \<le> e' \<and> e' \<le> d"
              then have "?T ! ((s + e') mod B) = w_table w ! ((s + e') mod B)"
                using e(1) dt t by (intro same) simp_all
              then show "key (?T ! ((s + e') mod B)) \<noteq> None" using e(4) e' by simp
            qed
            then show "\<exists>e. 1 \<le> e \<and> e \<le> d \<and> hash k' mod B = (s + e) mod B \<and>
              (\<forall>e'. e \<le> e' \<and> e' \<le> d \<longrightarrow> key (?T ! ((s + e') mod B)) \<noteq> None)"
              using e(1,2,3) by blast
          qed
          moreover have "?T ! ((s + d) mod B) = w_table w ! ((s + d) mod B)"
            using False d t by (intro same) simp_all
          ultimately show ?thesis using pl d dt by simp
        qed
      qed
    qed
    then show ?thesis using victim(4) by blast
  next
    case (stay k e f')
    let ?w = "w\<lparr>w_histo := (w_histo w)[histo_addr (count (w_table w ! i)) :=
                 u32 (w_histo w ! histo_addr (count (w_table w ! i)) + 1)],
              w_size := u32 (w_size w + 1), w_i := i\<rparr>"
    have eqm: "(s + f) mod B = (s + f') mod B" using stay(8) f(2) by simp
    have ff: "f' = f"
    proof (cases "f \<le> f'")
      case True
      then have "f = f'" using stay(7) t by (intro offset_inj[OF eqm]) simp_all
      then show ?thesis by simp
    next
      case False
      then show ?thesis using f(1) t by (intro offset_inj[OF eqm[symmetric]]) simp_all
    qed
    have "walk_inv hash B boundary tbl0 s (t + 1) ?w"
      unfolding walk_inv_def
    proof (intro conjI)
      show "length (w_table ?w) = B" using len by simp
      show "w_i ?w = (s + (t + 1)) mod B" using i_def by simp
      show "\<forall>d. t + 1 < d \<and> d \<le> B \<longrightarrow> w_table ?w ! ((s + d) mod B) = tbl0 ! ((s + d) mod B)"
        using unch by simp
      have "\<forall>d. f < d \<and> d \<le> t + 1 \<longrightarrow> key (w_table w ! ((s + d) mod B)) \<noteq> None"
      proof (intro allI impI)
        fix d assume d: "f < d \<and> d \<le> t + 1"
        show "key (w_table w ! ((s + d) mod B)) \<noteq> None"
        proof (cases "d = t + 1")
          case True
          then show ?thesis using stay(2) i_def by simp
        next
          case False
          then show ?thesis using f(4) d by simp
        qed
      qed
      then show "\<exists>f\<le>t + 1. w_last_free ?w = (s + f) mod B \<and>
           key (w_table ?w ! ((s + f) mod B)) = None \<and>
           (\<forall>d. f < d \<and> d \<le> t + 1 \<longrightarrow> key (w_table ?w ! ((s + d) mod B)) \<noteq> None)"
        using f(1,2,3) by (intro exI[where x=f]) simp
      show "\<forall>d. 1 \<le> d \<and> d \<le> t + 1 \<longrightarrow>
        placed hash B s (w_table ?w) d \<and>
        (key (w_table ?w ! ((s + d) mod B)) \<noteq> None \<longrightarrow>
         boundary < count (w_table ?w ! ((s + d) mod B)))"
      proof (intro allI impI)
        fix d assume d: "1 \<le> d \<and> d \<le> t + 1"
        show "placed hash B s (w_table ?w) d \<and>
        (key (w_table ?w ! ((s + d) mod B)) \<noteq> None \<longrightarrow>
         boundary < count (w_table ?w ! ((s + d) mod B)))"
        proof (cases "d = t + 1")
          case False
          then show ?thesis using pl d by simp
        next
          case True
          have "\<forall>e'. e \<le> e' \<and> e' \<le> t + 1 \<longrightarrow> key (w_table w ! ((s + e') mod B)) \<noteq> None"
          proof (intro allI impI)
            fix e' assume e': "e \<le> e' \<and> e' \<le> t + 1"
            show "key (w_table w ! ((s + e') mod B)) \<noteq> None"
            proof (cases "e' = t + 1")
              case True
              then show ?thesis using stay(2) i_def by simp
            next
              case False
              then show ?thesis using f(4) e' stay(4) ff by simp
            qed
          qed
          moreover have "1 \<le> e" using stay(4) by simp
          ultimately have "placed hash B s (w_table w) (t + 1)"
            unfolding placed_def using stay(2,5,6) i_def by auto
          then show ?thesis using True stay(3) i_def by simp
        qed
      qed
    qed
    then show ?thesis using stay(9) by blast
  next
    case (move k e r)
    let ?r = "(s + r) mod B"
    let ?T = "(w_table w)[?r := w_table w ! i, i := empty_cell]"
    let ?w = "w\<lparr>w_table := ?T, w_last_free := i,
              w_histo := (w_histo w)[histo_addr (count (w_table w ! i)) :=
                 u32 (w_histo w ! histo_addr (count (w_table w ! i)) + 1)],
              w_size := u32 (w_size w + 1), w_i := i\<rparr>"
    have r1: "1 \<le> r" using move(4,5) by simp
    have rB: "?r < B" using Bpos by simp
    have ri: "?r \<noteq> i" using neq[of r] r1 move(6) t by simp
    have Tr: "?T ! ?r = w_table w ! i" using ri rB len by simp
    have Ti: "?T ! i = empty_cell" using iB len by simp
    have neqr: "(s + d) mod B \<noteq> ?r" if "d \<noteq> r" "1 \<le> d" "d \<le> B" for d
    proof
      assume e: "(s + d) mod B = ?r"
      show False
      proof (cases "d \<le> r")
        case True
        then have "d = r" using e t that move(6)
          by (intro offset_inj[of s d B]) simp_all
        then show False using that by simp
      next
        case False
        then have "r = d" using e t that r1
          by (intro offset_inj[of s r B]) simp_all
        then show False using that by simp
      qed
    qed
    have same: "?T ! ((s + d) mod B) = w_table w ! ((s + d) mod B)"
      if "d \<noteq> t + 1" "d \<noteq> r" "1 \<le> d" "d \<le> B" for d
      using neq[of d] neqr[of d] that by simp
    have occ: "key (?T ! ((s + d) mod B)) \<noteq> None"
      if "key (w_table w ! ((s + d) mod B)) \<noteq> None \<or> d = r" "d \<noteq> t + 1" "1 \<le> d" "d \<le> B" for d
    proof (cases "d = r")
      case True
      then show ?thesis using Tr move(2) by simp
    next
      case False
      then show ?thesis using same[of d] that by simp
    qed
    have "walk_inv hash B boundary tbl0 s (t + 1) ?w"
      unfolding walk_inv_def
    proof (intro conjI)
      show "length (w_table ?w) = B" using len by simp
      show "w_i ?w = (s + (t + 1)) mod B" using i_def by simp
      show "\<forall>d. t + 1 < d \<and> d \<le> B \<longrightarrow> w_table ?w ! ((s + d) mod B) = tbl0 ! ((s + d) mod B)"
      proof (intro allI impI)
        fix d assume d: "t + 1 < d \<and> d \<le> B"
        then have "?T ! ((s + d) mod B) = w_table w ! ((s + d) mod B)"
          using move(6) by (intro same) simp_all
        then show "w_table ?w ! ((s + d) mod B) = tbl0 ! ((s + d) mod B)"
          using unch d by simp
      qed
      show "\<exists>f\<le>t + 1. w_last_free ?w = (s + f) mod B \<and>
           key (w_table ?w ! ((s + f) mod B)) = None \<and>
           (\<forall>d. f < d \<and> d \<le> t + 1 \<longrightarrow> key (w_table ?w ! ((s + d) mod B)) \<noteq> None)"
        using i_def Ti by (intro exI[where x="t + 1"]) (auto simp: empty_cell_def)
      show "\<forall>d. 1 \<le> d \<and> d \<le> t + 1 \<longrightarrow>
        placed hash B s (w_table ?w) d \<and>
        (key (w_table ?w ! ((s + d) mod B)) \<noteq> None \<longrightarrow>
         boundary < count (w_table ?w ! ((s + d) mod B)))"
      proof (intro allI impI)
        fix d assume d: "1 \<le> d \<and> d \<le> t + 1"
        show "placed hash B s (w_table ?w) d \<and>
        (key (w_table ?w ! ((s + d) mod B)) \<noteq> None \<longrightarrow>
         boundary < count (w_table ?w ! ((s + d) mod B)))"
        proof (cases "d = t + 1")
          case True
          then show ?thesis using i_def Ti by (simp add: placed_def empty_cell_def)
        next
          case False
          then have dt: "d \<le> t" using d by simp
          show ?thesis
          proof (cases "d = r")
            case True
            have "\<forall>e'. e \<le> e' \<and> e' \<le> r \<longrightarrow> key (?T ! ((s + e') mod B)) \<noteq> None"
            proof (intro allI impI)
              fix e' assume e': "e \<le> e' \<and> e' \<le> r"
              show "key (?T ! ((s + e') mod B)) \<noteq> None"
                using e' move(4,6,9) t by (intro occ) auto
            qed
            then have "placed hash B s ?T r"
              unfolding placed_def using Tr move(2,4,5,7) by auto
            then show ?thesis using True Tr move(3) by simp
          next
            case dr: False
            have eq: "?T ! ((s + d) mod B) = w_table w ! ((s + d) mod B)"
              using False dr d t by (intro same) simp_all
            have p: "placed hash B s (w_table w) d" using pl d dt by simp
            have "placed hash B s ?T d"
              unfolding placed_def
            proof (intro allI impI)
              fix k' assume "key (?T ! ((s + d) mod B)) = Some k'"
              then have "key (w_table w ! ((s + d) mod B)) = Some k'" using eq by simp
              then obtain e1 where e1: "1 \<le> e1" "e1 \<le> d" "hash k' mod B = (s + e1) mod B"
                "\<forall>e'. e1 \<le> e' \<and> e' \<le> d \<longrightarrow> key (w_table w ! ((s + e') mod B)) \<noteq> None"
                using p unfolding placed_def by blast
              have "\<forall>e'. e1 \<le> e' \<and> e' \<le> d \<longrightarrow> key (?T ! ((s + e') mod B)) \<noteq> None"
              proof (intro allI impI)
                fix e' assume e': "e1 \<le> e' \<and> e' \<le> d"
                show "key (?T ! ((s + e') mod B)) \<noteq> None"
                  using e' e1(1,4) dt t by (intro occ) auto
              qed
              then show "\<exists>e. 1 \<le> e \<and> e \<le> d \<and> hash k' mod B = (s + e) mod B \<and>
                (\<forall>e'. e \<le> e' \<and> e' \<le> d \<longrightarrow> key (?T ! ((s + e') mod B)) \<noteq> None)"
                using e1(1,2,3) by blast
            qed
            then show ?thesis using eq pl d dt by simp
          qed
        qed
      qed
    qed
    then show ?thesis using move(10) by blast
  qed
qed

section \<open>The loop of the walk\<close>

lemma prune_loop_rule:
  fixes B :: nat
  assumes Bpos: "0 < B" and sB: "s < B"
    and wi: "\<And>t w. I t w \<Longrightarrow> w_i w = (s + t) mod B"
    and step: "\<And>t w. t < B \<Longrightarrow> I t w \<Longrightarrow>
       \<exists>w'. prune_body hash hmask n boundary w = Some w' \<and> I (t + 1) w'"
  shows "I t w \<Longrightarrow> t < B \<Longrightarrow> B - t \<le> fuel \<Longrightarrow>
    \<exists>w'. prune_loop fuel hash hmask n boundary s w = Some w' \<and> I B w'"
proof (induction fuel arbitrary: t w)
  case 0
  then show ?case by simp
next
  case (Suc fuel)
  obtain w' where w': "prune_body hash hmask n boundary w = Some w'" "I (t + 1) w'"
    using step[OF Suc.prems(2,1)] by blast
  have wi': "w_i w' = (s + (t + 1)) mod B" using wi[OF w'(2)] .
  show ?case
  proof (cases "t + 1 = B")
    case True
    then have "w_i w' = s" using wi' sB by simp
    then show ?thesis using w' True by auto
  next
    case False
    then have lt: "t + 1 < B" using Suc.prems(2) by simp
    have "w_i w' \<noteq> s"
    proof
      assume "w_i w' = s"
      then have "(s + 0) mod B = (s + (t + 1)) mod B" using wi' sB by simp
      then have "0 = t + 1" using lt by (intro offset_inj[of s 0 B]) simp_all
      then show False by simp
    qed
    moreover have "\<exists>w''. prune_loop fuel hash hmask n boundary s w' = Some w'' \<and> I B w''"
      using Suc.prems(3) lt by (intro Suc.IH[OF w'(2)]) simp_all
    ultimately show ?thesis using w'(1) by auto
  qed
qed

section \<open>Counting along the walk\<close>

lemma histo_addr_lt: "histo_addr v < 256"
  by (auto simp: histo_addr_def split: prod.splits)

lemma visited_finite: "finite (visited B s t tbl P)"
proof -
  have "visited B s t tbl P \<subseteq> {..t}" by (auto simp: visited_def)
  then show ?thesis by (rule finite_subset) simp
qed

lemma visited_card_le: "card (visited B s t tbl P) \<le> t"
proof -
  have "visited B s t tbl P \<subseteq> {1..t}" by (auto simp: visited_def)
  then have "card (visited B s t tbl P) \<le> card {1..t}" by (intro card_mono) simp_all
  then show ?thesis by simp
qed

lemma walk_count_step:
  assumes g: "geom self" and B: "B = buckets self"
    and orig: "s < B" "key (tbl0 ! s) = None"
      "\<forall>d. 1 \<le> d \<and> d \<le> B \<longrightarrow> placed hash B s tbl0 d"
    and inv: "walk_inv hash B boundary tbl0 s t w" and t: "t < B"
    and cnt: "walk_count B s t w"
    and pb: "prune_body hash (hash_mask self) B boundary w = Some w'"
  shows "walk_count B s (t + 1) w'"
proof -
  define i where "i = (s + (t + 1)) mod B"
  have Bpos: "0 < B" using geom_pos[OF g] B by simp
  have iB: "i < B" using i_def Bpos by simp
  have B31: "B \<le> 2 ^ 31"
  proof -
    from g obtain k where k: "k \<le> 31" "buckets self = 2 ^ k" by (rule geomD)
    have "(2::nat) ^ k \<le> 2 ^ 31" using k(1) by (rule power_increasing) simp
    then show ?thesis using k(2) B by simp
  qed
  from inv have len: "length (w_table w) = B" by (simp add: walk_inv_def)
  from cnt have sz: "w_size w = card (visited B s t (w_table w) (\<lambda>c. True))"
    and hl: "length (w_histo w) = 256"
    and hs: "\<forall>b<256. w_histo w ! b =
           card (visited B s t (w_table w) (\<lambda>c. histo_addr (count c) = b))"
    by (simp_all add: walk_count_def)
  have neq: "(s + d) mod B \<noteq> i" if "d \<le> t" "t + 1 < B" for d
  proof
    assume "(s + d) mod B = i"
    then have "d = t + 1" unfolding i_def using that by (intro offset_inj[of s d B]) simp_all
    then show False using that by simp
  qed
  have u: "u32 (card (visited B s t T P) + 1) = card (visited B s t T P) + 1" for T P
  proof -
    have "card (visited B s t T P) + 1 \<le> B" using visited_card_le[of B s t T P] t by simp
    then have "card (visited B s t T P) + 1 < 2 ^ 32" using B31 by simp
    then show ?thesis by (simp add: u32_def)
  qed
  text \<open>The visited set after a step that leaves the old slots alone and adds a cell.\<close>
  have grow: "card (visited B s (t + 1) T' P) =
      card (visited B s t (w_table w) P) + (if P c then 1 else 0)"
    if same: "\<And>d. 1 \<le> d \<Longrightarrow> d \<le> t + 1 \<Longrightarrow> d \<noteq> x \<Longrightarrow>
          T' ! ((s + d) mod B) = (if d = t + 1 then empty_cell else w_table w ! ((s + d) mod B))"
      and x: "1 \<le> x" "x \<le> t + 1" "T' ! ((s + x) mod B) = c" "key c \<noteq> None"
      and old: "x \<le> t \<Longrightarrow> key (w_table w ! ((s + x) mod B)) = None"
    for T' P c x
  proof -
    have notin: "x \<notin> visited B s t (w_table w) P" using old by (auto simp: visited_def)
    have "visited B s (t + 1) T' P =
          (if P c then insert x (visited B s t (w_table w) P) else visited B s t (w_table w) P)"
    proof (intro set_eqI iffI)
      fix d assume d: "d \<in> visited B s (t + 1) T' P"
      show "d \<in> (if P c then insert x (visited B s t (w_table w) P)
                  else visited B s t (w_table w) P)"
      proof (cases "d = x")
        case True
        then show ?thesis using d x(3) by (auto simp: visited_def)
      next
        case False
        then have "T' ! ((s + d) mod B) =
           (if d = t + 1 then empty_cell else w_table w ! ((s + d) mod B))"
          using d by (intro same) (auto simp: visited_def)
        then show ?thesis using d False
          by (cases "d = t + 1") (auto simp: visited_def empty_cell_def)
      qed
    next
      fix d assume d: "d \<in> (if P c then insert x (visited B s t (w_table w) P)
                  else visited B s t (w_table w) P)"
      show "d \<in> visited B s (t + 1) T' P"
      proof (cases "d = x")
        case True
        then have "P c" using d notin by (auto split: if_splits)
        then show ?thesis using True x by (auto simp: visited_def)
      next
        case False
        then have dv: "d \<in> visited B s t (w_table w) P" using d by (auto split: if_splits)
        then have "T' ! ((s + d) mod B) = w_table w ! ((s + d) mod B)"
          using same[of d] False by (auto simp: visited_def)
        then show ?thesis using dv by (auto simp: visited_def)
      qed
    qed
    then show ?thesis using notin visited_finite[of B s t "w_table w" P] by simp
  qed
  text \<open>The visited set after a step that adds no cell.\<close>
  have keep: "visited B s (t + 1) T' P = visited B s t (w_table w) P"
    if same: "\<And>d. 1 \<le> d \<Longrightarrow> d \<le> t \<Longrightarrow> T' ! ((s + d) mod B) = w_table w ! ((s + d) mod B)"
      and last: "key (T' ! ((s + (t + 1)) mod B)) = None"
    for T' P
  proof (intro set_eqI iffI)
    fix d assume d: "d \<in> visited B s (t + 1) T' P"
    then have "d \<noteq> t + 1" using last by (auto simp: visited_def)
    then show "d \<in> visited B s t (w_table w) P" using d same[of d] by (auto simp: visited_def)
  next
    fix d assume d: "d \<in> visited B s t (w_table w) P"
    then show "d \<in> visited B s (t + 1) T' P" using same[of d] by (auto simp: visited_def)
  qed
  show ?thesis
    using g B orig inv t i_def
  proof (cases rule: walk_step)
    case empty
    then have w': "w' = w\<lparr>w_last_free := i, w_i := i\<rparr>" using pb by simp
    have "visited B s (t + 1) (w_table w) P = visited B s t (w_table w) P" for P
      using empty(1) i_def by (intro keep) simp_all
    then show ?thesis using sz hl hs w' by (simp add: walk_count_def)
  next
    case (victim k)
    then have w': "w' = w\<lparr>w_str_allocated := sub64 (w_str_allocated w) (u32 (u32 (length k) + 1)),
              w_table := (w_table w)[i := empty_cell], w_last_free := i, w_i := i\<rparr>"
      using pb by simp
    have "visited B s (t + 1) ((w_table w)[i := empty_cell]) P = visited B s t (w_table w) P" for P
    proof (rule keep)
      fix d assume "1 \<le> d" "d \<le> t"
      then have "(s + d) mod B \<noteq> i" using neq[of d] victim(1) by simp
      then show "(w_table w)[i := empty_cell] ! ((s + d) mod B) = w_table w ! ((s + d) mod B)"
        by simp
    next
      show "key ((w_table w)[i := empty_cell] ! ((s + (t + 1)) mod B)) = None"
        using iB len i_def by (simp add: empty_cell_def)
    qed
    then show ?thesis using sz hl hs w' by (simp add: walk_count_def)
  next
    case (stay k e f)
    then have w': "w' = w\<lparr>w_histo := (w_histo w)[histo_addr (count (w_table w ! i)) :=
                 u32 (w_histo w ! histo_addr (count (w_table w ! i)) + 1)],
              w_size := u32 (w_size w + 1), w_i := i\<rparr>"
      using pb by simp
    have gr: "card (visited B s (t + 1) (w_table w) P) =
      card (visited B s t (w_table w) P) + (if P (w_table w ! i) then 1 else 0)" for P
      using stay(2) i_def by (intro grow[where x="t + 1"]) auto
    show ?thesis
      unfolding walk_count_def w'
    proof (intro conjI allI impI)
      show "w_size (w\<lparr>w_histo := (w_histo w)[histo_addr (count (w_table w ! i)) :=
                 u32 (w_histo w ! histo_addr (count (w_table w ! i)) + 1)],
              w_size := u32 (w_size w + 1), w_i := i\<rparr>) =
        card (visited B s (t + 1) (w_table (w\<lparr>w_histo := (w_histo w)[histo_addr (count (w_table w ! i)) :=
                 u32 (w_histo w ! histo_addr (count (w_table w ! i)) + 1)],
              w_size := u32 (w_size w + 1), w_i := i\<rparr>)) (\<lambda>c. True))"
        using gr[of "\<lambda>c. True"] sz u by simp
    next
      fix b :: nat assume b: "b < 256"
      show "w_histo (w\<lparr>w_histo := (w_histo w)[histo_addr (count (w_table w ! i)) :=
                 u32 (w_histo w ! histo_addr (count (w_table w ! i)) + 1)],
              w_size := u32 (w_size w + 1), w_i := i\<rparr>) ! b =
        card (visited B s (t + 1) (w_table (w\<lparr>w_histo := (w_histo w)[histo_addr (count (w_table w ! i)) :=
                 u32 (w_histo w ! histo_addr (count (w_table w ! i)) + 1)],
              w_size := u32 (w_size w + 1), w_i := i\<rparr>)) (\<lambda>c. histo_addr (count c) = b))"
        using gr[of "\<lambda>c. histo_addr (count c) = b"] hs b hl u histo_addr_lt
        by (auto simp: nth_list_update)
    qed (use hl in simp)
  next
    case (move k e r)
    let ?T = "(w_table w)[(s + r) mod B := w_table w ! i, i := empty_cell]"
    from move have w': "w' = w\<lparr>w_table := ?T, w_last_free := i,
              w_histo := (w_histo w)[histo_addr (count (w_table w ! i)) :=
                 u32 (w_histo w ! histo_addr (count (w_table w ! i)) + 1)],
              w_size := u32 (w_size w + 1), w_i := i\<rparr>"
      using pb by simp
    have r1: "1 \<le> r" using move(4,5) by simp
    have rB: "(s + r) mod B < B" using Bpos by simp
    have ri: "(s + r) mod B \<noteq> i" using neq[of r] move(1,6) by simp
    have neqr: "(s + d) mod B \<noteq> (s + r) mod B" if "d \<noteq> r" "d \<le> t + 1" for d
    proof
      assume e: "(s + d) mod B = (s + r) mod B"
      show False
      proof (cases "d \<le> r")
        case True
        then have "d = r" using e move(1,6) by (intro offset_inj[of s d B]) simp_all
        then show False using that by simp
      next
        case False
        then have "r = d" using e move(1) that by (intro offset_inj[of s r B]) simp_all
        then show False using that by simp
      qed
    qed
    have gr: "card (visited B s (t + 1) ?T P) =
      card (visited B s t (w_table w) P) + (if P (w_table w ! i) then 1 else 0)" for P
    proof (rule grow[where x=r])
      fix d assume d: "1 \<le> d" "d \<le> t + 1" "d \<noteq> r"
      show "?T ! ((s + d) mod B) =
        (if d = t + 1 then empty_cell else w_table w ! ((s + d) mod B))"
      proof (cases "d = t + 1")
        case True
        then show ?thesis using iB len i_def by simp
      next
        case False
        then show ?thesis using neq[of d] neqr[of d] d move(1) by simp
      qed
    next
      show "1 \<le> r" by (rule r1)
      show "r \<le> t + 1" using move(6) by simp
      show "?T ! ((s + r) mod B) = w_table w ! i" using ri rB len by simp
      show "key (w_table w ! i) \<noteq> None" using move(2) by simp
      show "key (w_table w ! ((s + r) mod B)) = None" by (rule move(8))
    qed
    show ?thesis
      unfolding walk_count_def w'
    proof (intro conjI allI impI)
      show "w_size (w\<lparr>w_table := ?T, w_last_free := i,
              w_histo := (w_histo w)[histo_addr (count (w_table w ! i)) :=
                 u32 (w_histo w ! histo_addr (count (w_table w ! i)) + 1)],
              w_size := u32 (w_size w + 1), w_i := i\<rparr>) =
        card (visited B s (t + 1) (w_table (w\<lparr>w_table := ?T, w_last_free := i,
              w_histo := (w_histo w)[histo_addr (count (w_table w ! i)) :=
                 u32 (w_histo w ! histo_addr (count (w_table w ! i)) + 1)],
              w_size := u32 (w_size w + 1), w_i := i\<rparr>)) (\<lambda>c. True))"
        using gr[of "\<lambda>c. True"] sz u by simp
    next
      fix b :: nat assume b: "b < 256"
      show "w_histo (w\<lparr>w_table := ?T, w_last_free := i,
              w_histo := (w_histo w)[histo_addr (count (w_table w ! i)) :=
                 u32 (w_histo w ! histo_addr (count (w_table w ! i)) + 1)],
              w_size := u32 (w_size w + 1), w_i := i\<rparr>) ! b =
        card (visited B s (t + 1) (w_table (w\<lparr>w_table := ?T, w_last_free := i,
              w_histo := (w_histo w)[histo_addr (count (w_table w ! i)) :=
                 u32 (w_histo w ! histo_addr (count (w_table w ! i)) + 1)],
              w_size := u32 (w_size w + 1), w_i := i\<rparr>)) (\<lambda>c. histo_addr (count c) = b))"
        using gr[of "\<lambda>c. histo_addr (count c) = b"] hs b hl u histo_addr_lt
        by (auto simp: nth_list_update)
    qed (use hl in simp)
  qed
qed

section \<open>The contents along the walk\<close>

lemma sub64_small:
  assumes "b \<le> a" "a < 2 ^ 64"
  shows "sub64 a b = a - b"
proof -
  define N :: nat where "N = 2 ^ 64"
  have aN: "a < N" using assms(2) by (simp add: N_def)
  have bN: "b mod N = b" using assms(1) aN by simp
  have "a + N - b = (a - b) + N" using assms(1) by simp
  then have "(a + N - b) mod N = (a - b) mod N" by simp
  also have "\<dots> = a - b" using aN by simp
  finally have "(a + N - b mod N) mod N = a - b" using bN by simp
  then show ?thesis unfolding sub64_def N_def .
qed

lemma sum_list_map_update:
  "i < length xs \<Longrightarrow>
   sum_list (map f (xs[i := x])) + f (xs ! i) = sum_list (map f xs) + (f x :: nat)"
proof (induction xs arbitrary: i)
  case Nil
  then show ?case by simp
next
  case (Cons a xs)
  then show ?case by (cases i) (simp_all add: add.assoc add.left_commute)
qed

lemma length_filter_update:
  "i < length xs \<Longrightarrow>
   length (filter P (xs[i := x])) + (if P (xs ! i) then 1 else 0) =
   length (filter P xs) + (if P x then 1 else 0)"
proof (induction xs arbitrary: i)
  case Nil
  then show ?case by simp
next
  case (Cons a xs)
  then show ?case by (cases i) auto
qed

lemma sum_list_map_bound:
  "(\<forall>x \<in> set xs. f x \<le> (m::nat)) \<Longrightarrow> sum_list (map f xs) \<le> length xs * m"
  by (induction xs) auto

lemma key_bytes_empty: "key_bytes empty_cell = 0"
  by (simp add: key_bytes_def empty_cell_def)

lemma walk_content_step:
  assumes g: "geom self" and B: "B = buckets self"
    and orig: "s < B" "key (tbl0 ! s) = None"
      "\<forall>d. 1 \<le> d \<and> d \<le> B \<longrightarrow> placed hash B s tbl0 d"
    and keys: "\<forall>c \<in> set tbl0. \<forall>k. key c = Some k \<longrightarrow> length k < 2 ^ 31"
    and inv: "walk_inv hash B boundary tbl0 s t w" and t: "t < B"
    and con: "walk_content boundary tbl0 w"
    and pb: "prune_body hash (hash_mask self) B boundary w = Some w'"
  shows "walk_content boundary tbl0 w'"
proof -
  define i where "i = (s + (t + 1)) mod B"
  have Bpos: "0 < B" using geom_pos[OF g] B by simp
  have iB: "i < B" using i_def Bpos by simp
  from inv have len: "length (w_table w) = B" by (simp add: walk_inv_def)
  from con have sub: "\<forall>c \<in> set (w_table w). c \<in> set tbl0 \<or> c = empty_cell"
    and sur: "\<forall>c \<in> set tbl0. key c \<noteq> None \<and> boundary < count c \<longrightarrow> c \<in> set (w_table w)"
    and sa: "w_str_allocated w = sum_list (map key_bytes (w_table w))"
    and nf: "length (filter (\<lambda>c. key c \<noteq> None \<and> boundary < count c) (w_table w)) =
        length (filter (\<lambda>c. key c \<noteq> None \<and> boundary < count c) tbl0)"
    by (simp_all add: walk_content_def)
  have mem: "w_table w ! i \<in> set (w_table w)" using iB len by simp
  show ?thesis
    using g B orig inv t i_def
  proof (cases rule: walk_step)
    case empty
    then have "w' = w\<lparr>w_last_free := i, w_i := i\<rparr>" using pb by simp
    then show ?thesis using con by (simp add: walk_content_def)
  next
    case (victim k)
    let ?T = "(w_table w)[i := empty_cell]"
    have w': "w' = w\<lparr>w_str_allocated := sub64 (w_str_allocated w) (u32 (u32 (length k) + 1)),
              w_table := ?T, w_last_free := i, w_i := i\<rparr>"
      using victim pb by simp
    have a: "\<forall>c \<in> set ?T. c \<in> set tbl0 \<or> c = empty_cell"
      using sub set_update_subset_insert[of "w_table w" i empty_cell] by auto
    have b: "\<forall>c \<in> set tbl0. key c \<noteq> None \<and> boundary < count c \<longrightarrow> c \<in> set ?T"
    proof (intro ballI impI)
      fix c assume c: "c \<in> set tbl0" "key c \<noteq> None \<and> boundary < count c"
      then have "c \<in> set (w_table w)" using sur by simp
      then obtain j where j: "j < length (w_table w)" "w_table w ! j = c"
        by (auto simp: in_set_conv_nth)
      then have "j \<noteq> i" using c(2) victim(3) by auto
      then have "?T ! j = c" using j by simp
      then show "c \<in> set ?T" using j(1) by (metis length_list_update nth_mem)
    qed
    have kl: "length k < 2 ^ 31"
    proof -
      have "w_table w ! i \<in> set tbl0" using sub mem victim(2) by (auto simp: empty_cell_def)
      then show ?thesis using keys victim(2) by blast
    qed
    have x: "u32 (u32 (length k) + 1) = length k + 1" using kl by (simp add: u32_def)
    have kb: "key_bytes (w_table w ! i) = length k + 1" using victim(2) by (simp add: key_bytes_def)
    have s1: "sum_list (map key_bytes ?T) + (length k + 1) = sum_list (map key_bytes (w_table w))"
      using sum_list_map_update[of i "w_table w" key_bytes empty_cell] iB len kb
      by (simp add: key_bytes_empty)
    have bnd: "sum_list (map key_bytes (w_table w)) < 2 ^ 64"
    proof -
      have "\<forall>c \<in> set (w_table w). key_bytes c \<le> 2 ^ 31"
      proof
        fix c assume "c \<in> set (w_table w)"
        then have "c \<in> set tbl0 \<or> c = empty_cell" using sub by simp
        then show "key_bytes c \<le> 2 ^ 31"
          using keys by (cases "key c") (auto simp: key_bytes_def empty_cell_def Suc_leI)
      qed
      then have "sum_list (map key_bytes (w_table w)) \<le> length (w_table w) * 2 ^ 31"
        by (rule sum_list_map_bound)
      moreover have "B \<le> 2 ^ 31"
      proof -
        from g obtain k where k: "k \<le> 31" "buckets self = 2 ^ k" by (rule geomD)
        have "(2::nat) ^ k \<le> 2 ^ 31" using k(1) by (rule power_increasing) simp
        then show ?thesis using k(2) B by simp
      qed
      then have "B * 2 ^ 31 \<le> (2::nat) ^ 31 * 2 ^ 31" by (rule mult_le_mono1)
      ultimately have "sum_list (map key_bytes (w_table w)) \<le> (2::nat) ^ 31 * 2 ^ 31"
        using len by simp
      then show ?thesis by simp
    qed
    have "sub64 (w_str_allocated w) (length k + 1) = w_str_allocated w - (length k + 1)"
      using sa s1 bnd by (intro sub64_small) simp_all
    then have c: "sub64 (w_str_allocated w) (u32 (u32 (length k) + 1)) =
                  sum_list (map key_bytes ?T)"
      using x sa s1 by simp
    have n: "length (filter (\<lambda>c. key c \<noteq> None \<and> boundary < count c) ?T) =
        length (filter (\<lambda>c. key c \<noteq> None \<and> boundary < count c) (w_table w))"
      using length_filter_update[of i "w_table w" "\<lambda>c. key c \<noteq> None \<and> boundary < count c" empty_cell]
        iB len victim(3) by (simp add: empty_cell_def)
    show ?thesis unfolding walk_content_def w' using a b c n nf by simp
  next
    case (stay k e f)
    then have "w' = w\<lparr>w_histo := (w_histo w)[histo_addr (count (w_table w ! i)) :=
                 u32 (w_histo w ! histo_addr (count (w_table w ! i)) + 1)],
              w_size := u32 (w_size w + 1), w_i := i\<rparr>"
      using pb by simp
    then show ?thesis using con by (simp add: walk_content_def)
  next
    case (move k e r)
    let ?r = "(s + r) mod B"
    let ?T1 = "(w_table w)[?r := w_table w ! i]"
    let ?T = "?T1[i := empty_cell]"
    from move have w': "w' = w\<lparr>w_table := ?T, w_last_free := i,
              w_histo := (w_histo w)[histo_addr (count (w_table w ! i)) :=
                 u32 (w_histo w ! histo_addr (count (w_table w ! i)) + 1)],
              w_size := u32 (w_size w + 1), w_i := i\<rparr>"
      using pb by simp
    have rB: "?r < B" using Bpos by simp
    have ri: "?r \<noteq> i"
    proof
      assume "?r = i"
      then have "r = t + 1" unfolding i_def using move(1,6) by (intro offset_inj[of s r B]) simp_all
      then show False using move(6) by simp
    qed
    have a: "\<forall>c \<in> set ?T. c \<in> set tbl0 \<or> c = empty_cell"
    proof
      fix c assume "c \<in> set ?T"
      then have "c = empty_cell \<or> c \<in> set ?T1"
        using set_update_subset_insert[of ?T1 i empty_cell] by auto
      then have "c = empty_cell \<or> c = w_table w ! i \<or> c \<in> set (w_table w)"
        using set_update_subset_insert[of "w_table w" ?r "w_table w ! i"] by auto
      then show "c \<in> set tbl0 \<or> c = empty_cell" using sub mem by auto
    qed
    have b: "\<forall>c \<in> set tbl0. key c \<noteq> None \<and> boundary < count c \<longrightarrow> c \<in> set ?T"
    proof (intro ballI impI)
      fix c assume c: "c \<in> set tbl0" "key c \<noteq> None \<and> boundary < count c"
      then have "c \<in> set (w_table w)" using sur by simp
      then obtain j where j: "j < length (w_table w)" "w_table w ! j = c"
        by (auto simp: in_set_conv_nth)
      have jr: "j \<noteq> ?r" using j(2) c(2) move(8) by auto
      show "c \<in> set ?T"
      proof (cases "j = i")
        case True
        then have "?T ! ?r = c" using ri rB len j by simp
        then show ?thesis using rB len by (metis length_list_update nth_mem)
      next
        case False
        then have "?T ! j = c" using jr j by simp
        then show ?thesis using j(1) by (metis length_list_update nth_mem)
      qed
    qed
    have k0: "key_bytes (w_table w ! ?r) = 0" using move(8) by (simp add: key_bytes_def)
    have s1: "sum_list (map key_bytes ?T1) = sum_list (map key_bytes (w_table w)) + key_bytes (w_table w ! i)"
      using sum_list_map_update[of ?r "w_table w" key_bytes "w_table w ! i"] rB len k0 by simp
    have "sum_list (map key_bytes ?T) + key_bytes (?T1 ! i) = sum_list (map key_bytes ?T1) + key_bytes empty_cell"
      using iB len by (intro sum_list_map_update) simp
    then have "sum_list (map key_bytes ?T) = sum_list (map key_bytes (w_table w))"
      using s1 ri by (simp add: key_bytes_empty)
    moreover have "length (filter (\<lambda>c. key c \<noteq> None \<and> boundary < count c) ?T) =
        length (filter (\<lambda>c. key c \<noteq> None \<and> boundary < count c) (w_table w))"
    proof -
      let ?P = "\<lambda>c. key c \<noteq> None \<and> boundary < count c"
      have "length (filter ?P ?T1) + (if ?P (w_table w ! ?r) then 1 else 0) =
            length (filter ?P (w_table w)) + (if ?P (w_table w ! i) then 1 else 0)"
        using rB len by (intro length_filter_update) simp
      moreover have "length (filter ?P ?T) + (if ?P (?T1 ! i) then 1 else 0) =
            length (filter ?P ?T1) + (if ?P empty_cell then 1 else 0)"
        using iB len by (intro length_filter_update) simp
      ultimately show ?thesis using move(8) ri by (simp add: empty_cell_def)
    qed
    ultimately show ?thesis unfolding walk_content_def w' using a b sa nf by simp
  qed
qed

section \<open>Cyclic ranges and offsets\<close>

lemma nat_mod_cancel:
  fixes a b c m :: nat
  assumes "(a + c) mod m = (b + c) mod m"
  shows "a mod m = b mod m"
proof (cases "a \<le> b")
  case True
  then have "m dvd (b + c) - (a + c)"
    using assms by (intro iffD1[OF mod_eq_dvd_iff_nat]) simp_all
  then have "m dvd b - a" by simp
  then have "b mod m = a mod m" using True by (intro iffD2[OF mod_eq_dvd_iff_nat]) simp_all
  then show ?thesis by simp
next
  case False
  then have "m dvd (a + c) - (b + c)"
    using assms by (intro iffD1[OF mod_eq_dvd_iff_nat]) simp_all
  then have "m dvd a - b" by simp
  then show ?thesis using False by (intro iffD2[OF mod_eq_dvd_iff_nat]) simp_all
qed

lemma dist_add:
  fixes h j B :: nat
  assumes "h < B" "j < B"
  shows "(h + (j + B - h) mod B) mod B = j"
proof -
  have "(h + (j + B - h) mod B) mod B = (h + (j + B - h)) mod B" by (rule mod_add_right_eq)
  also have "h + (j + B - h) = j + B" using assms by simp
  finally show ?thesis using assms by simp
qed

lemma offset_cover:
  fixes s j B :: nat
  assumes "s < B" "j < B"
  obtains d where "1 \<le> d" "d \<le> B" "j = (s + d) mod B"
proof (cases "j = s")
  case True
  then have "j = (s + B) mod B" using assms by simp
  then show ?thesis using that[of B] assms by simp
next
  case False
  let ?d = "(j + B - s) mod B"
  have e: "(s + ?d) mod B = j" using assms by (rule dist_add)
  have "?d \<noteq> 0"
  proof
    assume "?d = 0"
    then have "s mod B = j" using e by simp
    then show False using False assms by simp
  qed
  moreover have "?d < B" using assms by simp
  ultimately show ?thesis using that[of ?d] e by simp
qed

lemma chain_ok_placed:
  assumes g: "geom self" and c: "chain_ok hash self" and B: "B = buckets self"
    and s: "s < B" "key (table self ! s) = None"
    and d: "1 \<le> d" "d \<le> B"
  shows "placed hash B s (table self) d"
  unfolding placed_def
proof (intro allI impI)
  fix k assume k: "key (table self ! ((s + d) mod B)) = Some k"
  have Bpos: "0 < B" using s by simp
  let ?j = "(s + d) mod B"
  let ?h = "hash k mod B"
  let ?x0 = "(?j + B - ?h) mod B"
  have hm: "home hash self k = ?h" using geom_hash[OF g, of "hash k"] B by (simp add: home_def)
  have jB: "?j < B" and hB: "?h < B" using Bpos by simp_all
  have ch: "key (table self ! ((?h + x) mod B)) \<noteq> None" if "x \<le> ?x0" for x
    using c k jB that hm B unfolding chain_ok_def by (auto dest!: bspec[where x="?j"])
  have hx: "(?h + ?x0) mod B = ?j" using hB jB by (rule dist_add)
  have lt: "?x0 < d"
  proof (rule ccontr)
    assume "\<not> ?x0 < d"
    then have le: "d \<le> ?x0" by simp
    have "(?h + (?x0 - d) + d) mod B = (s + d) mod B" using hx le by simp
    then have "(?h + (?x0 - d)) mod B = s mod B" by (rule nat_mod_cancel)
    then have "(?h + (?x0 - d)) mod B = s" using s(1) by simp
    moreover have "key (table self ! ((?h + (?x0 - d)) mod B)) \<noteq> None" by (rule ch) simp
    ultimately show False using s(2) by simp
  qed
  let ?e = "d - ?x0"
  have e1: "1 \<le> ?e" "?e \<le> d" using lt by simp_all
  have "(s + ?e + ?x0) mod B = (?h + ?x0) mod B" using hx lt by simp
  then have "(s + ?e) mod B = ?h mod B" by (rule nat_mod_cancel)
  then have he: "?h = (s + ?e) mod B" by simp
  have "\<forall>e'. ?e \<le> e' \<and> e' \<le> d \<longrightarrow> key (table self ! ((s + e') mod B)) \<noteq> None"
  proof (intro allI impI)
    fix e' assume e': "?e \<le> e' \<and> e' \<le> d"
    have "(?h + (e' - ?e)) mod B = ((s + ?e) mod B + (e' - ?e)) mod B" using he by simp
    also have "\<dots> = (s + ?e + (e' - ?e)) mod B" by (rule mod_add_left_eq)
    also have "s + ?e + (e' - ?e) = s + e'" using e' by simp
    finally have "(?h + (e' - ?e)) mod B = (s + e') mod B" .
    moreover have "key (table self ! ((?h + (e' - ?e)) mod B)) \<noteq> None"
      using e' lt by (intro ch) linarith
    ultimately show "key (table self ! ((s + e') mod B)) \<noteq> None" by simp
  qed
  then show "\<exists>e. 1 \<le> e \<and> e \<le> d \<and> hash k mod B = (s + e) mod B \<and>
     (\<forall>e'. e \<le> e' \<and> e' \<le> d \<longrightarrow> key (table self ! ((s + e') mod B)) \<noteq> None)"
    using e1 he by blast
qed

lemma placed_chain_ok:
  assumes g: "geom self" and B: "B = buckets self" and s: "s < B"
    and p: "\<forall>d. 1 \<le> d \<and> d \<le> B \<longrightarrow> placed hash B s (table self) d"
  shows "chain_ok hash self"
  unfolding chain_ok_def
proof
  fix i assume "i \<in> {..<buckets self}"
  then have iB: "i < B" using B by simp
  have Bpos: "0 < B" using s by simp
  show "case key (table self ! i) of None \<Rightarrow> True
     | Some k \<Rightarrow> \<forall>x\<in>{..(i + buckets self - home hash self k) mod buckets self}.
            key (table self ! ((home hash self k + x) mod buckets self)) \<noteq> None"
  proof (cases "key (table self ! i)")
    case None
    then show ?thesis by simp
  next
    case (Some k)
    have hm: "home hash self k = hash k mod B"
      using geom_hash[OF g, of "hash k"] B by (simp add: home_def)
    from s iB obtain d where d: "1 \<le> d" "d \<le> B" "i = (s + d) mod B" by (rule offset_cover)
    then have "placed hash B s (table self) d" using p by simp
    then obtain e where e: "1 \<le> e" "e \<le> d" "hash k mod B = (s + e) mod B"
      "\<forall>e'. e \<le> e' \<and> e' \<le> d \<longrightarrow> key (table self ! ((s + e') mod B)) \<noteq> None"
      using Some d(3) unfolding placed_def by blast
    have x0: "(i + B - hash k mod B) mod B = d - e"
      unfolding d(3) e(3) using e(1,2) d(2) by (intro offset_dist[OF Bpos]) simp_all
    have "key (table self ! ((hash k mod B + x) mod B)) \<noteq> None" if "x \<le> d - e" for x
    proof -
      have "(hash k mod B + x) mod B = ((s + e) mod B + x) mod B" using e(3) by simp
      also have "\<dots> = (s + e + x) mod B" by (rule mod_add_left_eq)
      finally have "(hash k mod B + x) mod B = (s + (e + x)) mod B" by (simp add: add.assoc)
      moreover have "key (table self ! ((s + (e + x)) mod B)) \<noteq> None"
        using e(4) that e(2) by simp
      ultimately show ?thesis by simp
    qed
    then show ?thesis using Some hm x0 B by simp
  qed
qed

lemma chain_ok_probe_chain: "chain_ok hash self \<Longrightarrow> probe_chain hash self"
  unfolding chain_ok_def probe_chain_def
  by (auto split: option.splits)

section \<open>The prune as a whole\<close>

lemma first_empty_spec:
  "\<exists>j. n \<le> j \<and> j < length tbl \<and> key (tbl ! j) = None \<Longrightarrow>
   \<exists>s. first_empty tbl n = Some s \<and> s < length tbl \<and> key (tbl ! s) = None"
proof (induction "length tbl - n" arbitrary: n)
  case 0
  then show ?case by auto
next
  case (Suc m)
  then obtain j where j: "n \<le> j" "j < length tbl" "key (tbl ! j) = None" by blast
  show ?case
  proof (cases "key (tbl ! n) = None")
    case True
    then show ?thesis using j by (subst first_empty.simps) auto
  next
    case False
    then have "n \<noteq> j" using j(3) by auto
    then have "n + 1 \<le> j" using j(1) by linarith
    then have "\<exists>j. n + 1 \<le> j \<and> j < length tbl \<and> key (tbl ! j) = None" using j by blast
    moreover have "m = length tbl - (n + 1)" using Suc.hyps(2) by simp
    ultimately have "\<exists>s. first_empty tbl (n + 1) = Some s \<and> s < length tbl \<and> key (tbl ! s) = None"
      by (rule Suc.hyps(1)[rotated])
    then show ?thesis using False j by (subst first_empty.simps) auto
  qed
qed

lemma first_empty_Some:
  "first_empty tbl n = Some s \<Longrightarrow> s < length tbl \<and> key (tbl ! s) = None"
proof (induction tbl n rule: first_empty.induct)
  case (1 tbl start)
  then show ?case
    by (subst (asm) (2) first_empty.simps) (auto split: if_splits)
qed

lemma visited_card:
  assumes "length tbl = B" "s < B"
  shows "card (visited B s B tbl P) = length (filter (\<lambda>c. key c \<noteq> None \<and> P c) tbl)"
proof -
  let ?f = "\<lambda>d. (s + d) mod B"
  have Bpos: "0 < B" using assms(2) by simp
  have inj: "inj_on ?f (visited B s B tbl P)"
  proof (rule inj_onI)
    fix x y assume x: "x \<in> visited B s B tbl P" and y: "y \<in> visited B s B tbl P"
      and e: "?f x = ?f y"
    show "x = y"
    proof (cases "x \<le> y")
      case True
      then show ?thesis using e x y by (intro offset_inj[of s x B y]) (auto simp: visited_def)
    next
      case False
      then have "y = x" using e x y by (intro offset_inj[of s y B x]) (auto simp: visited_def)
      then show ?thesis by simp
    qed
  qed
  have "?f ` visited B s B tbl P = {i. i < length tbl \<and> (key (tbl ! i) \<noteq> None \<and> P (tbl ! i))}"
  proof (intro set_eqI iffI)
    fix i assume "i \<in> ?f ` visited B s B tbl P"
    then show "i \<in> {i. i < length tbl \<and> (key (tbl ! i) \<noteq> None \<and> P (tbl ! i))}"
      using assms(1) Bpos by (auto simp: visited_def)
  next
    fix i assume i: "i \<in> {i. i < length tbl \<and> (key (tbl ! i) \<noteq> None \<and> P (tbl ! i))}"
    then have "i < B" using assms by simp
    with assms(2) obtain d where d: "1 \<le> d" "d \<le> B" "i = (s + d) mod B" by (rule offset_cover)
    then have "d \<in> visited B s B tbl P" using i by (simp add: visited_def)
    then show "i \<in> ?f ` visited B s B tbl P" using d(3) by blast
  qed
  then have "card {i. i < length tbl \<and> (key (tbl ! i) \<noteq> None \<and> P (tbl ! i))} =
             card (visited B s B tbl P)"
    using card_image[OF inj] by simp
  then show ?thesis by (simp add: length_filter_conv_card)
qed

lemma prune_int_spec:
  assumes inv: "ht_inv hash self" and ex: "\<exists>c \<in> set (table self). key c = None"
  shows "\<exists>self'. prune_int hash self boundary = Some self' \<and> ht_inv hash self' \<and>
     (\<forall>c \<in> set (table self'). key c \<noteq> None \<longrightarrow> boundary < count c) \<and>
     (\<forall>c \<in> set (table self'). c \<in> set (table self) \<or> c = empty_cell) \<and>
     (\<forall>c \<in> set (table self). key c \<noteq> None \<and> boundary < count c \<longrightarrow> c \<in> set (table self')) \<and>
     size_ht self' =
       length (filter (\<lambda>c. key c \<noteq> None \<and> boundary < count c) (table self))"
proof -
  define B where "B = buckets self"
  define T0 where "T0 = table self"
  from inv have g: "geom self" and ch: "chain_ok hash self" and co: "counts_ok self"
    and ko: "keys_ok self" by (simp_all add: ht_inv_def)
  have len0: "length T0 = B" using g by (simp add: geom_def B_def T0_def)
  have Bpos: "0 < B" using geom_pos[OF g] by (simp add: B_def)
  from ex obtain j where "j < length T0" "key (T0 ! j) = None"
    by (auto simp: in_set_conv_nth T0_def)
  then have "\<exists>j. 0 \<le> j \<and> j < length T0 \<and> key (T0 ! j) = None" by blast
  then obtain s where s: "first_empty T0 0 = Some s" "s < length T0" "key (T0 ! s) = None"
    using first_empty_spec[of 0 T0] by blast
  have sB: "s < B" using s(2) len0 by simp
  have orig: "\<forall>d. 1 \<le> d \<and> d \<le> B \<longrightarrow> placed hash B s T0 d"
    using chain_ok_placed[OF g ch B_def sB] s(3) by (simp add: T0_def)
  have keys: "\<forall>c \<in> set T0. \<forall>k. key c = Some k \<longrightarrow> length k < 2 ^ 31"
    using ko by (auto simp: keys_ok_def T0_def split: option.splits)
  define w0 where "w0 = \<lparr>w_table = T0, w_histo = replicate 256 0,
     w_str_allocated = str_allocated self, w_size = 0, w_i = s, w_last_free = s\<rparr>"
  define I where "I t w \<longleftrightarrow> walk_inv hash B boundary T0 s t w \<and> walk_count B s t w \<and>
     walk_content boundary T0 w" for t w
  have I0: "I 0 w0"
  proof -
    have "walk_inv hash B boundary T0 s 0 w0"
      unfolding walk_inv_def w0_def using len0 sB s(3) by auto
    moreover have "walk_count B s 0 w0"
      unfolding walk_count_def w0_def by (simp add: visited_def)
    moreover have "walk_content boundary T0 w0"
      unfolding walk_content_def w0_def using ko by (simp add: keys_ok_def T0_def)
    ultimately show ?thesis by (simp add: I_def)
  qed
  have wi: "w_i w = (s + t) mod B" if "I t w" for t w
    using that by (simp add: I_def walk_inv_def)
  have step: "\<exists>w'. prune_body hash (hash_mask self) B boundary w = Some w' \<and> I (t + 1) w'"
    if tB: "t < B" and It: "I t w" for t w
  proof -
    from It have a: "walk_inv hash B boundary T0 s t w" "walk_count B s t w"
      "walk_content boundary T0 w" by (simp_all add: I_def)
    obtain w' where w': "prune_body hash (hash_mask self) B boundary w = Some w'"
      "walk_inv hash B boundary T0 s (t + 1) w'"
      using walk_inv_step[OF g B_def sB s(3) orig a(1) tB] by blast
    have "walk_count B s (t + 1) w'"
      using walk_count_step[OF g B_def sB s(3) orig a(1) tB a(2) w'(1)] .
    moreover have "walk_content boundary T0 w'"
      using walk_content_step[OF g B_def sB s(3) orig keys a(1) tB a(3) w'(1)] .
    ultimately show ?thesis using w' by (auto simp: I_def)
  qed
  obtain w where w: "prune_loop B hash (hash_mask self) B boundary s w0 = Some w" "I B w"
    using prune_loop_rule[of B s I hash "hash_mask self" B boundary 0 w0 B, OF Bpos sB wi step I0]
      Bpos by auto
  from w(2) have fin: "walk_inv hash B boundary T0 s B w" "walk_count B s B w"
    "walk_content boundary T0 w" by (simp_all add: I_def)
  define self' where "self' =
    (if boundary > max_prune self then self\<lparr>max_prune := boundary\<rparr> else self)
      \<lparr>table := w_table w, histo := w_histo w,
       str_allocated := w_str_allocated w, size_ht := w_size w\<rparr>"
  have pi: "prune_int hash self boundary = Some self'"
    using s(1) w(1) unfolding prune_int_def self'_def Let_def w0_def B_def T0_def
    by (auto split: if_splits)
  have f': "table self' = w_table w" "histo self' = w_histo w"
    "str_allocated self' = w_str_allocated w" "size_ht self' = w_size w"
    "buckets self' = B" "hash_mask self' = hash_mask self"
    by (simp_all add: self'_def B_def)
  have lenw: "length (w_table w) = B" using fin(1) by (simp add: walk_inv_def)
  have g': "geom self'" using g f' lenw by (simp add: geom_def B_def)
  have sub: "\<forall>c \<in> set (w_table w). c \<in> set T0 \<or> c = empty_cell"
    and sur: "\<forall>c \<in> set T0. key c \<noteq> None \<and> boundary < count c \<longrightarrow> c \<in> set (w_table w)"
    and nf: "length (filter (\<lambda>c. key c \<noteq> None \<and> boundary < count c) (w_table w)) =
        length (filter (\<lambda>c. key c \<noteq> None \<and> boundary < count c) T0)"
    and sa: "w_str_allocated w = sum_list (map key_bytes (w_table w))"
    using fin(3) by (simp_all add: walk_content_def)
  have above: "\<forall>c \<in> set (w_table w). key c \<noteq> None \<longrightarrow> boundary < count c"
  proof (intro ballI impI)
    fix c assume c: "c \<in> set (w_table w)" "key c \<noteq> None"
    then obtain i where i: "i < B" "w_table w ! i = c"
      using lenw by (auto simp: in_set_conv_nth)
    from sB i(1) obtain d where d: "1 \<le> d" "d \<le> B" "i = (s + d) mod B" by (rule offset_cover)
    then show "boundary < count c" using fin(1) c(2) i(2) unfolding walk_inv_def by auto
  qed
  have ch': "chain_ok hash self'"
  proof (rule placed_chain_ok[OF g' _ sB])
    show "B = buckets self'" using f' by simp
    show "\<forall>d. 1 \<le> d \<and> d \<le> B \<longrightarrow> placed hash B s (table self') d"
      using fin(1) f' unfolding walk_inv_def by simp
  qed
  have sz: "w_size w = length (filter (\<lambda>c. key c \<noteq> None) (w_table w))"
    using fin(2) visited_card[OF lenw sB, of "\<lambda>c. True"] by (simp add: walk_count_def)
  have co': "counts_ok self'"
  proof -
    have a: "length (w_histo w) = 256" using fin(2) by (simp add: walk_count_def)
    have b: "\<forall>b \<in> {..<256}. w_histo w ! b =
      length (filter (\<lambda>c. key c \<noteq> None \<and> histo_addr (count c) = b) (w_table w))"
    proof
      fix b :: nat assume "b \<in> {..<256}"
      then show "w_histo w ! b =
        length (filter (\<lambda>c. key c \<noteq> None \<and> histo_addr (count c) = b) (w_table w))"
        using fin(2) visited_card[OF lenw sB, of "\<lambda>c. histo_addr (count c) = b"]
        by (simp add: walk_count_def)
    qed
    have c: "\<forall>c \<in> set (w_table w). 0 \<le> count c \<and> (key c = None \<longrightarrow> count c = 0)"
    proof
      fix c assume "c \<in> set (w_table w)"
      then have "c \<in> set T0 \<or> c = empty_cell" using sub by simp
      then show "0 \<le> count c \<and> (key c = None \<longrightarrow> count c = 0)"
        using co by (auto simp: counts_ok_def T0_def empty_cell_def)
    qed
    show ?thesis unfolding counts_ok_def f' using a b c sz by blast
  qed
  have ko': "keys_ok self'"
  proof -
    have "\<forall>c \<in> set (w_table w).
      case key c of None \<Rightarrow> True | Some k \<Rightarrow> checkString k \<and> length k < 2 ^ 31"
    proof
      fix c assume "c \<in> set (w_table w)"
      then have "c \<in> set T0 \<or> c = empty_cell" using sub by simp
      then show "case key c of None \<Rightarrow> True | Some k \<Rightarrow> checkString k \<and> length k < 2 ^ 31"
        using ko by (auto simp: keys_ok_def T0_def empty_cell_def)
    qed
    then show ?thesis unfolding keys_ok_def f' using sa by blast
  qed
  have "filter (\<lambda>c. key c \<noteq> None) (w_table w) =
        filter (\<lambda>c. key c \<noteq> None \<and> boundary < count c) (w_table w)"
    using above by (intro filter_cong) auto
  then have sz': "size_ht self' =
       length (filter (\<lambda>c. key c \<noteq> None \<and> boundary < count c) (table self))"
    using sz nf f' by (simp add: T0_def)
  show ?thesis
    using pi g' ch' co' ko' above sub sur sz' f'(1)
    by (intro exI[where x=self']) (simp add: ht_inv_def T0_def)
qed

section \<open>The invariants hold initially\<close>

lemma init_inv:
  assumes "init a w = Inr self"
  shows "ht_inv hash self"
proof -
  have g: "geom self" using assms by (rule init_geom)
  have f: "table self = replicate (buckets self) empty_cell" "histo self = replicate 256 0"
    "size_ht self = 0" "str_allocated self = 0"
    using assms by (auto simp: init_def Let_def split: if_splits)
  have e: "filter P (replicate n empty_cell) = []" if "\<not> P empty_cell" for P n
    using that by (induction n) auto
  have ch: "chain_ok hash self"
    unfolding chain_ok_def f by (auto simp: empty_cell_def)
  have co: "counts_ok self"
    unfolding counts_ok_def f by (auto simp: e empty_cell_def)
  have "sum_list (map key_bytes (replicate n empty_cell)) = 0" for n
    by (induction n) (auto simp: key_bytes_empty)
  then have ko: "keys_ok self"
    unfolding keys_ok_def f by (auto simp: empty_cell_def)
  show ?thesis using g ch co ko by (simp add: ht_inv_def)
qed

section \<open>The probe loop\<close>

lemma find_loop_spec:
  assumes g: "geom self" and B: "B = buckets self"
  shows "find_loop n tbl (hash_mask self) data ((h + a) mod B) = Some i \<Longrightarrow>
    \<exists>x. a \<le> x \<and> x < a + n \<and> i = (h + x) mod B \<and>
        (key (tbl ! i) = None \<or> key (tbl ! i) = Some data) \<and>
        (\<forall>y. a \<le> y \<and> y < x \<longrightarrow>
           key (tbl ! ((h + y) mod B)) \<noteq> None \<and> key (tbl ! ((h + y) mod B)) \<noteq> Some data)"
proof (induction n arbitrary: a)
  case 0
  then show ?case by simp
next
  case (Suc n)
  show ?case
  proof (cases "key (tbl ! ((h + a) mod B)) = None \<or> key (tbl ! ((h + a) mod B)) = Some data")
    case True
    then have "i = (h + a) mod B" using Suc.prems by (auto split: option.splits)
    then show ?thesis using True by (intro exI[where x=a]) auto
  next
    case False
    have nx: "u32 ((h + a) mod B + 1) AND hash_mask self = (h + (a + 1)) mod B"
      using geom_step[OF g] offset_suc B by simp
    have "find_loop n tbl (hash_mask self) data ((h + (a + 1)) mod B) = Some i"
      using Suc.prems False nx by (auto split: option.splits if_splits)
    then obtain x where x: "a + 1 \<le> x" "x < a + 1 + n" "i = (h + x) mod B"
      "key (tbl ! i) = None \<or> key (tbl ! i) = Some data"
      "\<forall>y. a + 1 \<le> y \<and> y < x \<longrightarrow>
           key (tbl ! ((h + y) mod B)) \<noteq> None \<and> key (tbl ! ((h + y) mod B)) \<noteq> Some data"
      using Suc.IH[of "a + 1"] by blast
    have "\<forall>y. a \<le> y \<and> y < x \<longrightarrow>
           key (tbl ! ((h + y) mod B)) \<noteq> None \<and> key (tbl ! ((h + y) mod B)) \<noteq> Some data"
    proof (intro allI impI)
      fix y assume y: "a \<le> y \<and> y < x"
      show "key (tbl ! ((h + y) mod B)) \<noteq> None \<and> key (tbl ! ((h + y) mod B)) \<noteq> Some data"
      proof (cases "y = a")
        case True
        then show ?thesis using False by simp
      next
        case False
        then show ?thesis using x(5) y by simp
      qed
    qed
    then show ?thesis using x by (intro exI[where x=x]) auto
  qed
qed

text \<open>
  What \<open>_find_cell\<close> returns, in a state that satisfies the geometry: the first slot of
  the probe path of the key that is empty or holds the key.
\<close>

lemma find_cell_spec:
  assumes g: "geom self" and f: "find_cell hash self data store = Some (i, self')"
  obtains x where "x < buckets self" "i = (home hash self data + x) mod buckets self"
    "(i + buckets self - home hash self data) mod buckets self = x"
    "key (table self ! i) = None \<or> key (table self ! i) = Some data"
    "\<forall>y<x. key (table self ! ((home hash self data + y) mod buckets self)) \<noteq> None \<and>
           key (table self ! ((home hash self data + y) mod buckets self)) \<noteq> Some data"
proof -
  define B where "B = buckets self"
  define h where "h = home hash self data"
  have Bpos: "0 < B" using geom_pos[OF g] by (simp add: B_def)
  have hB: "h < B" using geom_hash[OF g, of "hash data"] Bpos by (simp add: h_def home_def B_def)
  have "find_loop B (table self) (hash_mask self) data h = Some i"
    using f by (auto simp: find_cell_def bucket_def Let_def home_def h_def B_def
                   split: option.splits if_splits)
  then have "find_loop B (table self) (hash_mask self) data ((h + 0) mod B) = Some i"
    using hB by simp
  then obtain x where x: "x < 0 + B" "i = (h + x) mod B"
    "key (table self ! i) = None \<or> key (table self ! i) = Some data"
    "\<forall>y. 0 \<le> y \<and> y < x \<longrightarrow> key (table self ! ((h + y) mod B)) \<noteq> None \<and>
        key (table self ! ((h + y) mod B)) \<noteq> Some data"
    using find_loop_spec[OF g B_def, of B "table self" data h 0 i] by blast
  have "((h + x) mod B + B - (h + 0) mod B) mod B = x - 0"
    using x(1) by (intro offset_dist[OF Bpos]) simp_all
  then have d: "(i + B - h) mod B = x" using x(2) hB by simp
  show thesis
    using that[of x] x d unfolding B_def h_def by simp
qed

text \<open>A key that the probe does not find is nowhere in the table.\<close>

lemma find_cell_absent:
  assumes g: "geom self" and ch: "chain_ok hash self"
    and f: "find_cell hash self data store = Some (i, self')"
    and e: "key (table self ! i) = None"
  shows "\<forall>c \<in> set (table self). key c \<noteq> Some data"
proof
  fix c assume "c \<in> set (table self)"
  then obtain j where j: "j < buckets self" "table self ! j = c"
    using g by (auto simp: in_set_conv_nth geom_def)
  show "key c \<noteq> Some data"
  proof
    assume k: "key c = Some data"
    define B where "B = buckets self"
    define h where "h = home hash self data"
    have Bpos: "0 < B" using geom_pos[OF g] by (simp add: B_def)
    have hB: "h < B"
      using geom_hash[OF g, of "hash data"] Bpos by (simp add: h_def home_def B_def)
    from g f obtain x where x: "i = (h + x) mod B"
      "\<forall>y<x. key (table self ! ((h + y) mod B)) \<noteq> None \<and>
             key (table self ! ((h + y) mod B)) \<noteq> Some data"
      unfolding B_def h_def by (rule find_cell_spec) blast
    let ?xj = "(j + B - h) mod B"
    have cj: "\<forall>y \<le> ?xj. key (table self ! ((h + y) mod B)) \<noteq> None"
      using ch j k unfolding chain_ok_def B_def h_def by (auto dest!: bspec[where x=j])
    have hj: "(h + ?xj) mod B = j" using hB j(1) unfolding B_def by (intro dist_add) simp_all
    show False
    proof (cases "x \<le> ?xj")
      case True
      then show ?thesis using cj x(1) e by auto
    next
      case False
      then have "key (table self ! ((h + ?xj) mod B)) \<noteq> Some data" using x(2) by simp
      then show ?thesis using hj j(2) k by simp
    qed
  qed
qed

section \<open>Insertion keeps the invariants\<close>

lemma geom_le: "geom self \<Longrightarrow> buckets self \<le> 2 ^ 31"
proof -
  assume "geom self"
  then obtain k where k: "k \<le> 31" "buckets self = 2 ^ k" by (rule geomD)
  have "(2::nat) ^ k \<le> 2 ^ 31" using k(1) by (rule power_increasing) simp
  then show ?thesis using k(2) by simp
qed

lemma length_filter_le_length: "length (filter P xs) \<le> length xs"
  by (rule length_filter_le)

lemma key_bytes_sum_bound:
  assumes "\<forall>c \<in> set tbl. case key c of None \<Rightarrow> True | Some k \<Rightarrow> Q k \<and> length k < 2 ^ 31"
    and "length tbl \<le> 2 ^ 31"
  shows "sum_list (map key_bytes tbl) < 2 ^ 64"
proof -
  have "\<forall>c \<in> set tbl. key_bytes c \<le> 2 ^ 31"
    using assms(1) by (auto simp: key_bytes_def split: option.splits)
  then have "sum_list (map key_bytes tbl) \<le> length tbl * 2 ^ 31" by (rule sum_list_map_bound)
  moreover have "length tbl * 2 ^ 31 \<le> (2::nat) ^ 31 * 2 ^ 31"
    using assms(2) by (rule mult_le_mono1)
  ultimately have "sum_list (map key_bytes tbl) \<le> (2::nat) ^ 31 * 2 ^ 31" by linarith
  then show ?thesis by simp
qed

lemma fresh_cell_inv:
  assumes inv: "ht_inv hash self"
    and f: "find_cell hash self data store = Some (i, self1)"
    and e: "key (table self ! i) = None"
    and d: "checkString data" "length data < 2 ^ 31"
  shows "ht_inv hash (fresh_cell self i data)"
proof -
  define B where "B = buckets self"
  define T where "T = table self"
  define c where "c = \<lparr>key = Some data, count = 0\<rparr>"
  define T' where "T' = T[i := c]"
  from inv have g: "geom self" and ch: "chain_ok hash self" and co: "counts_ok self"
    and ko: "keys_ok self" by (simp_all add: ht_inv_def)
  have len: "length T = B" using g by (simp add: geom_def B_def T_def)
  have iB: "i < B" using find_cell_lt[OF g f] by (simp add: B_def)
  have B31: "B \<le> 2 ^ 31" using geom_le[OF g] by (simp add: B_def)
  have fr: "fresh_cell self i data =
    self\<lparr>size_ht := u32 (size_ht self + 1),
         str_allocated := u64 (str_allocated self + u32 (u32 (length data) + 1)),
         table := T', histo := (histo self)[0 := u32 (histo self ! 0 + 1)]\<rparr>"
    by (simp add: fresh_cell_def T'_def T_def c_def)
  have g': "geom (fresh_cell self i data)" using g by (simp add: fr geom_def T'_def T_def)
  have keyT': "key (T' ! j) \<noteq> None" if "key (T ! j) \<noteq> None \<or> j = i" "j < B" for j
    using that len by (cases "j = i") (auto simp: T'_def c_def)
  have hm: "home hash (fresh_cell self i data) k = home hash self k" for k
    by (simp add: home_def fr)
  from g f obtain x where x: "x < B" "i = (home hash self data + x) mod B"
    "(i + B - home hash self data) mod B = x"
    "\<forall>y<x. key (T ! ((home hash self data + y) mod B)) \<noteq> None \<and>
           key (T ! ((home hash self data + y) mod B)) \<noteq> Some data"
    unfolding B_def T_def by (rule find_cell_spec) blast
  have Bpos: "0 < B" using iB by simp
  have ch': "chain_ok hash (fresh_cell self i data)"
    unfolding chain_ok_def
  proof
    fix j assume "j \<in> {..<buckets (fresh_cell self i data)}"
    then have jB: "j < B" by (simp add: fr B_def)
    show "case key (table (fresh_cell self i data) ! j) of None \<Rightarrow> True
       | Some k \<Rightarrow> \<forall>x\<in>{..(j + buckets (fresh_cell self i data) -
                           home hash (fresh_cell self i data) k) mod
                          buckets (fresh_cell self i data)}.
            key (table (fresh_cell self i data) !
                 ((home hash (fresh_cell self i data) k + x) mod
                  buckets (fresh_cell self i data))) \<noteq> None"
    proof (cases "j = i")
      case True
      have "key (T' ! ((home hash self data + y) mod B)) \<noteq> None" if "y \<le> x" for y
      proof (cases "y = x")
        case True
        then show ?thesis using x(2) keyT'[of i] iB by simp
      next
        case False
        then have "y < x" using that by simp
        then show ?thesis using x(4) Bpos by (intro keyT') simp_all
      qed
      then show ?thesis using True x(3) iB len
        by (simp add: fr home_def B_def[symmetric] T'_def c_def)
    next
      case False
      then have same: "T' ! j = T ! j" by (simp add: T'_def)
      show ?thesis
      proof (cases "key (T ! j)")
        case None
        then show ?thesis using same by (simp add: fr)
      next
        case (Some k)
        have "\<forall>x \<le> (j + B - home hash self k) mod B.
                key (T ! ((home hash self k + x) mod B)) \<noteq> None"
          using ch Some jB unfolding chain_ok_def B_def T_def by (auto dest!: bspec[where x=j])
        then have "\<forall>x \<le> (j + B - home hash self k) mod B.
                key (T' ! ((home hash self k + x) mod B)) \<noteq> None"
        proof (intro allI impI)
          fix x assume a: "\<forall>x \<le> (j + B - home hash self k) mod B.
                key (T ! ((home hash self k + x) mod B)) \<noteq> None"
            and x: "x \<le> (j + B - home hash self k) mod B"
          then have "key (T ! ((home hash self k + x) mod B)) \<noteq> None" by blast
          then show "key (T' ! ((home hash self k + x) mod B)) \<noteq> None"
            using Bpos by (intro keyT') simp_all
        qed
        then show ?thesis using Some same by (simp add: fr home_def B_def[symmetric])
      qed
    qed
  qed
  from co have hl: "length (histo self) = 256"
    and sz: "size_ht self = length (filter (\<lambda>c. key c \<noteq> None) T)"
    and hb: "\<forall>b \<in> {..<256}. histo self ! b =
          length (filter (\<lambda>c. key c \<noteq> None \<and> histo_addr (count c) = b) T)"
    and cn: "\<forall>c \<in> set T. 0 \<le> count c \<and> (key c = None \<longrightarrow> count c = 0)"
    by (simp_all add: counts_ok_def T_def)
  have e': "key (T ! i) = None" using e by (simp add: T_def)
  have fl: "length (filter P T') = length (filter P T) + (if P c then 1 else 0)"
    if "\<And>c. P c \<Longrightarrow> key c \<noteq> None" for P
  proof -
    have "\<not> P (T ! i)" using that[of "T ! i"] e' by auto
    then show ?thesis
      using length_filter_update[of i T P c] iB len by (simp add: T'_def)
  qed
  have u: "u32 (length (filter P T) + 1) = length (filter P T) + 1"
    if "\<And>c. P c \<Longrightarrow> key c \<noteq> None" for P
  proof -
    have "length (filter P T') \<le> length T'" by (rule length_filter_le)
    then have "length (filter P T) + (if P c then 1 else 0) \<le> B"
      using fl[OF that] len by (simp add: T'_def)
    moreover have "length (filter P T) \<le> length (filter (\<lambda>c. key c \<noteq> None) T)"
    proof -
      have "filter P T = filter P (filter (\<lambda>c. key c \<noteq> None) T)"
        using that by (auto intro!: filter_cong)
      then show ?thesis by (metis length_filter_le)
    qed
    moreover have "length (filter (\<lambda>c. key c \<noteq> None) T) + 1 \<le> B"
      using fl[of "\<lambda>c. key c \<noteq> None"] length_filter_le[of "\<lambda>c. key c \<noteq> None" T'] len
      by (simp add: T'_def c_def)
    ultimately have "length (filter P T) + 1 < 2 ^ 32" using B31 by simp
    then show ?thesis by (simp add: u32_def)
  qed
  have h0: "histo_addr 0 = 0" by (simp add: histo_addr_def)
  have co': "counts_ok (fresh_cell self i data)"
  proof -
    have a: "u32 (size_ht self + 1) = length (filter (\<lambda>c. key c \<noteq> None) T')"
      using sz u[of "\<lambda>c. key c \<noteq> None"] fl[of "\<lambda>c. key c \<noteq> None"] by (simp add: c_def)
    have b: "\<forall>b \<in> {..<256}. (histo self)[0 := u32 (histo self ! 0 + 1)] ! b =
          length (filter (\<lambda>c. key c \<noteq> None \<and> histo_addr (count c) = b) T')"
    proof
      fix b :: nat assume b: "b \<in> {..<256}"
      have "length (filter (\<lambda>c. key c \<noteq> None \<and> histo_addr (count c) = b) T') =
            length (filter (\<lambda>c. key c \<noteq> None \<and> histo_addr (count c) = b) T) +
            (if b = 0 then 1 else 0)"
        using fl[of "\<lambda>c. key c \<noteq> None \<and> histo_addr (count c) = b"] h0 by (auto simp: c_def)
      then show "(histo self)[0 := u32 (histo self ! 0 + 1)] ! b =
          length (filter (\<lambda>c. key c \<noteq> None \<and> histo_addr (count c) = b) T')"
        using hb b hl u[of "\<lambda>c. key c \<noteq> None \<and> histo_addr (count c) = 0"]
        by (cases "b = 0") auto
    qed
    have "\<forall>c \<in> set T'. 0 \<le> count c \<and> (key c = None \<longrightarrow> count c = 0)"
    proof
      fix c' assume "c' \<in> set T'"
      then have "c' = c \<or> c' \<in> set T"
        using set_update_subset_insert[of T i c] by (auto simp: T'_def)
      then show "0 \<le> count c' \<and> (key c' = None \<longrightarrow> count c' = 0)"
        using cn by (auto simp: c_def)
    qed
    then show ?thesis unfolding counts_ok_def using a b hl by (simp add: fr)
  qed
  from ko have kk: "\<forall>c \<in> set T. case key c of None \<Rightarrow> True
       | Some k \<Rightarrow> checkString k \<and> length k < 2 ^ 31"
    and sa: "str_allocated self = sum_list (map key_bytes T)"
    by (simp_all add: keys_ok_def T_def)
  have kk': "\<forall>c \<in> set T'. case key c of None \<Rightarrow> True
       | Some k \<Rightarrow> checkString k \<and> length k < 2 ^ 31"
  proof
    fix c' assume "c' \<in> set T'"
    then have "c' = c \<or> c' \<in> set T"
      using set_update_subset_insert[of T i c] by (auto simp: T'_def)
    then show "case key c' of None \<Rightarrow> True | Some k \<Rightarrow> checkString k \<and> length k < 2 ^ 31"
      using kk d by (auto simp: c_def)
  qed
  have ko': "keys_ok (fresh_cell self i data)"
  proof -
    have "sum_list (map key_bytes T') + key_bytes (T ! i) =
          sum_list (map key_bytes T) + key_bytes c"
      unfolding T'_def using iB len by (intro sum_list_map_update) simp
    then have s': "sum_list (map key_bytes T') = sum_list (map key_bytes T) + (length data + 1)"
      using e' by (simp add: key_bytes_def c_def)
    have "sum_list (map key_bytes T') < 2 ^ 64"
      using kk' len B31 by (intro key_bytes_sum_bound[where Q=checkString]) (simp_all add: T'_def)
    moreover have "u32 (u32 (length data) + 1) = length data + 1" using d(2) by (simp add: u32_def)
    ultimately have "u64 (str_allocated self + u32 (u32 (length data) + 1)) =
          sum_list (map key_bytes T')"
      using s' sa by (simp add: u64_def)
    then show ?thesis unfolding keys_ok_def using kk' by (simp add: fr)
  qed
  show ?thesis using g' ch' co' ko' by (simp add: ht_inv_def)
qed

lemma ht_inv_hll: "ht_inv hash (self\<lparr>hll := x\<rparr>) = ht_inv hash self"
  by (simp add: ht_inv_def geom_def chain_ok_def counts_ok_def keys_ok_def home_def
           cong: option.case_cong)

lemma allocate_cell_inv:
  assumes inv: "ht_inv hash self"
    and d: "checkString data" "length data < 2 ^ 31"
    and a: "allocate_cell hash self data = Some (cell, self')"
  shows "ht_inv hash self' \<and> cell < buckets self' \<and> key (table self' ! cell) \<noteq> None"
  using a
proof (cases rule: allocate_cell_cases)
  case found
  then have s: "self' = self\<lparr>hll := hll self @ [u32 (hash data)]\<rparr>"
    by (auto dest: find_cell_state)
  have "geom self" using inv by (simp add: ht_inv_def)
  then have "cell < buckets self" using found(1) by (rule find_cell_lt)
  then show ?thesis using found(2) inv s by (simp add: ht_inv_hll)
next
  case (fresh s1)
  then have s1: "s1 = self\<lparr>hll := hll self @ [u32 (hash data)]\<rparr>"
    by (auto dest: find_cell_state)
  then have i1: "ht_inv hash s1" using inv by (simp add: ht_inv_hll)
  then have g1: "geom s1" by (simp add: ht_inv_def)
  have f1: "find_cell hash s1 data False = Some (cell, s1)"
    using fresh(1) s1 by (auto simp: find_cell_def bucket_def Let_def split: option.splits)
  have cl: "cell < buckets s1" using find_cell_lt[OF g1 f1] .
  then have "cell < length (table s1)" using g1 by (simp add: geom_def)
  then have "key (table (fresh_cell s1 cell data) ! cell) \<noteq> None"
    by (simp add: fresh_cell_def)
  moreover have "ht_inv hash (fresh_cell s1 cell data)"
    using fresh_cell_inv[OF i1 f1 fresh(2) d] .
  ultimately show ?thesis using fresh(4) cl by (simp add: fresh_cell_def)
next
  case (pruned c1 s1 s2)
  then have s1: "s1 = self\<lparr>hll := hll self @ [u32 (hash data)]\<rparr>"
    by (auto dest: find_cell_state)
  then have i1: "ht_inv hash s1" using inv by (simp add: ht_inv_hll)
  then have g1: "geom s1" and ch1: "chain_ok hash s1" by (simp_all add: ht_inv_def)
  have f1: "find_cell hash s1 data False = Some (c1, s1)"
    using pruned(1) s1 by (auto simp: find_cell_def bucket_def Let_def split: option.splits)
  have "c1 < buckets s1" using find_cell_lt[OF g1 f1] .
  then have "table s1 ! c1 \<in> set (table s1)" using g1 by (simp add: geom_def)
  then have ex: "\<exists>c \<in> set (table s1). key c = None" using pruned(2) by blast
  obtain s2' where p: "prune_int hash s1 (prune_size s1) = Some s2'" "ht_inv hash s2'"
    "\<forall>c \<in> set (table s2'). c \<in> set (table s1) \<or> c = empty_cell"
    using prune_int_spec[OF i1 ex, of "prune_size s1"] by blast
  then have s2: "s2' = s2" using pruned(4) by simp
  have i2: "ht_inv hash s2" using p(2) s2 by simp
  then have g2: "geom s2" by (simp add: ht_inv_def)
  have cl: "cell < buckets s2" using find_cell_lt[OF g2 pruned(5)] .
  have ab: "\<forall>c \<in> set (table s1). key c \<noteq> Some data"
    using find_cell_absent[OF g1 ch1 f1 pruned(2)] .
  have "table s2 ! cell \<in> set (table s2)" using cl g2 by (simp add: geom_def)
  then have "key (table s2 ! cell) \<noteq> Some data"
    using p(3) s2 ab by (auto simp: empty_cell_def)
  then have e2: "key (table s2 ! cell) = None" using find_cell_key[OF pruned(5)] by simp
  have "cell < length (table s2)" using cl g2 by (simp add: geom_def)
  then have "key (table (fresh_cell s2 cell data) ! cell) \<noteq> None"
    by (simp add: fresh_cell_def)
  moreover have "ht_inv hash (fresh_cell s2 cell data)"
    using fresh_cell_inv[OF i2 pruned(5) e2 d] .
  ultimately show ?thesis using pruned(6) cl by (simp add: fresh_cell_def)
qed

section \<open>Changing a count keeps the invariants\<close>

lemma u32_sub32_succ:
  assumes "h < 2 ^ 32"
  shows "u32 (sub32 h 1 + 1) = h"
proof (cases "h = 0")
  case True
  then show ?thesis by (simp add: u32_def sub32_def)
next
  case False
  then have "sub32 h 1 = h - 1" using assms by (intro sub32_small) simp_all
  then show ?thesis using False assms by (simp add: u32_def)
qed

lemma ht_inv_total: "ht_inv hash (self\<lparr>total := x\<rparr>) = ht_inv hash self"
  by (simp add: ht_inv_def geom_def chain_ok_def counts_ok_def keys_ok_def home_def
           cong: option.case_cong)

lemma set_count_inv:
  assumes inv: "ht_inv hash self" and cl: "cell < buckets self" and v: "0 \<le> v"
    and k: "key (table self ! cell) \<noteq> None \<or> v = 0"
  shows "ht_inv hash (set_count self cell v tot)"
proof -
  define B where "B = buckets self"
  define T where "T = table self"
  define c0 where "c0 = T ! cell"
  define c1 where "c1 = c0\<lparr>count := v\<rparr>"
  define T' where "T' = T[cell := c1]"
  define a where "a = histo_addr (count c0)"
  define a' where "a' = histo_addr v"
  define h1 where "h1 = (histo self)[a := sub32 (histo self ! a) 1]"
  define h2 where "h2 = h1[a' := u32 (h1 ! a' + 1)]"
  from inv have g: "geom self" and ch: "chain_ok hash self" and co: "counts_ok self"
    and ko: "keys_ok self" by (simp_all add: ht_inv_def)
  have len: "length T = B" using g by (simp add: geom_def B_def T_def)
  have cB: "cell < B" using cl by (simp add: B_def)
  have B31: "B \<le> 2 ^ 31" using geom_le[OF g] by (simp add: B_def)
  have sc: "set_count self cell v tot = self\<lparr>total := tot, histo := h2, table := T'\<rparr>"
    by (simp add: set_count_def Let_def h2_def h1_def a_def a'_def T'_def c1_def c0_def T_def)
  from co have hl: "length (histo self) = 256"
    and sz: "size_ht self = length (filter (\<lambda>c. key c \<noteq> None) T)"
    and hb: "\<forall>b \<in> {..<256}. histo self ! b =
          length (filter (\<lambda>c. key c \<noteq> None \<and> histo_addr (count c) = b) T)"
    and cn: "\<forall>c \<in> set T. 0 \<le> count c \<and> (key c = None \<longrightarrow> count c = 0)"
    by (simp_all add: counts_ok_def T_def)
  have a256: "a < 256" "a' < 256" using histo_addr_lt by (simp_all add: a_def a'_def)
  have c0T: "c0 \<in> set T" using cB len by (simp add: c0_def)
  have hbound: "histo self ! b < 2 ^ 32" if "b < 256" for b
  proof -
    have "histo self ! b \<le> length T" using hb that by (simp add: length_filter_le)
    then show ?thesis using len B31 by simp
  qed
  show ?thesis
  proof (cases "key c0 = None")
    case True
    then have v0: "v = 0" using k by (simp add: c0_def T_def)
    have "count c0 = 0" using cn c0T True by blast
    then have "c1 = c0" using v0 by (simp add: c1_def)
    then have T': "T' = T" by (simp add: T'_def c0_def)
    have aa: "a = 0" "a' = 0" using \<open>count c0 = 0\<close> v0 by (simp_all add: a_def a'_def histo_addr_def)
    have "h2 = (histo self)[0 := u32 (sub32 (histo self ! 0) 1 + 1)]"
      using hl by (simp add: h2_def h1_def aa)
    also have "\<dots> = (histo self)[0 := histo self ! 0]"
      using u32_sub32_succ[OF hbound[of 0]] by simp
    finally have "h2 = histo self" by simp
    then have "set_count self cell v tot = self\<lparr>total := tot\<rparr>"
      using sc T' by (simp add: T_def)
    then show ?thesis using inv by (simp add: ht_inv_total)
  next
    case False
    have k1: "key c1 = key c0" by (simp add: c1_def)
    have keyT': "key (T' ! j) = key (T ! j)" for j
      using k1 cB len by (cases "j = cell") (simp_all add: T'_def c0_def)
    have g': "geom (set_count self cell v tot)" using g by (simp add: sc geom_def T'_def T_def)
    have ch': "chain_ok hash (set_count self cell v tot)"
      using ch unfolding chain_ok_def
      by (simp add: sc home_def keyT' T_def[symmetric] cong: option.case_cong)
    have fl: "length (filter P T') + (if P c0 then 1 else 0) =
              length (filter P T) + (if P c1 then 1 else 0)" for P
      unfolding T'_def c0_def using cB len by (intro length_filter_update) simp
    define P where "P b c \<longleftrightarrow> key c \<noteq> None \<and> histo_addr (count c) = b"
      for b :: nat and c :: cell
    have P0: "P b c0 \<longleftrightarrow> b = a" for b using False by (auto simp: a_def P_def)
    have P1: "P b c1 \<longleftrightarrow> b = a'" for b using False by (auto simp: a'_def c1_def P_def)
    have hb: "\<forall>b \<in> {..<256}. histo self ! b = length (filter (P b) T)"
      using hb unfolding P_def by simp
    have ha1: "1 \<le> histo self ! a"
    proof -
      have "c0 \<in> set (filter (P a) T)" using c0T P0 by simp
      then have "0 < length (filter (P a) T)" by (metis length_pos_if_in_set)
      moreover have "histo self ! a = length (filter (P a) T)" using hb a256 by simp
      ultimately show ?thesis by linarith
    qed
    have h1a: "h1 ! a = histo self ! a - 1"
      using hl a256 ha1 hbound[of a] by (simp add: h1_def sub32_small)
    have bins: "h2 ! b = length (filter (P b) T')" if b: "b < 256" for b
    proof (cases "a = a'")
      case True
      have "h2 ! a = u32 (h1 ! a + 1)" using hl a256 True by (simp add: h2_def h1_def)
      also have "\<dots> = histo self ! a" using h1a ha1 hbound[of a] a256 by (simp add: u32_def)
      finally have "h2 ! b = histo self ! b"
        using hl a256 True by (cases "b = a") (simp_all add: h2_def h1_def)
      moreover have "length (filter (P b) T') = length (filter (P b) T)"
        using fl[of "P b"] P0[of b] P1[of b] True by simp
      ultimately show ?thesis using hb b by simp
    next
      case False
      have n: "length (filter (P a') T') = length (filter (P a') T) + 1"
        using fl[of "P a'"] P0[of a'] P1[of a'] False by simp
      have "length (filter (P a') T') \<le> length T'" by (rule length_filter_le)
      then have "length (filter (P a') T) + 1 \<le> B" using n len by (simp add: T'_def)
      then have "histo self ! a' + 1 < 2 ^ 32" using hb a256 B31 by simp
      then have u: "u32 (histo self ! a' + 1) = histo self ! a' + 1" by (simp add: u32_def)
      have h2a': "h2 ! a' = histo self ! a' + 1"
        using hl a256 False u by (simp add: h2_def h1_def)
      have h2a: "h2 ! a = histo self ! a - 1"
        using hl a256 False h1a by (simp add: h2_def)
      have h2b: "h2 ! b = histo self ! b" if "b \<noteq> a" "b \<noteq> a'"
        using that by (simp add: h2_def h1_def)
      show ?thesis
      proof (cases "b = a")
        case True
        have "length (filter (P a) T') + 1 = length (filter (P a) T)"
          using fl[of "P a"] P0[of a] P1[of a] False by simp
        then show ?thesis using True h2a hb a256 by simp
      next
        case ba: False
        show ?thesis
        proof (cases "b = a'")
          case True
          then show ?thesis using h2a' n hb a256 by simp
        next
          case False
          have "length (filter (P b) T') = length (filter (P b) T)"
            using fl[of "P b"] P0[of b] P1[of b] ba False by simp
          then show ?thesis using h2b[OF ba False] hb b by simp
        qed
      qed
    qed
    have szT': "length (filter (\<lambda>c. key c \<noteq> None) T') = length (filter (\<lambda>c. key c \<noteq> None) T)"
      using fl[of "\<lambda>c. key c \<noteq> None"] k1 by simp
    have cn': "\<forall>c \<in> set T'. 0 \<le> count c \<and> (key c = None \<longrightarrow> count c = 0)"
    proof
      fix c assume "c \<in> set T'"
      then have "c = c1 \<or> c \<in> set T"
        using set_update_subset_insert[of T cell c1] by (auto simp: T'_def)
      then show "0 \<le> count c \<and> (key c = None \<longrightarrow> count c = 0)"
        using cn v False k1 by (auto simp: c1_def)
    qed
    have Pfun: "P b = (\<lambda>c. key c \<noteq> None \<and> histo_addr (count c) = b)" for b
      by (auto simp: P_def fun_eq_iff)
    have bins': "\<forall>b \<in> {..<256}. h2 ! b =
        length (filter (\<lambda>c. key c \<noteq> None \<and> histo_addr (count c) = b) T')"
      using bins unfolding Pfun by simp
    have hl2: "length h2 = 256" using hl by (simp add: h2_def h1_def)
    have co': "counts_ok (set_count self cell v tot)"
      unfolding counts_ok_def sc using hl2 sz szT' bins' cn' by simp
    from ko have kk: "\<forall>c \<in> set T. case key c of None \<Rightarrow> True
         | Some k \<Rightarrow> checkString k \<and> length k < 2 ^ 31"
      and sa: "str_allocated self = sum_list (map key_bytes T)"
      by (simp_all add: keys_ok_def T_def)
    have kk': "\<forall>c \<in> set T'. case key c of None \<Rightarrow> True
         | Some k \<Rightarrow> checkString k \<and> length k < 2 ^ 31"
    proof
      fix c assume "c \<in> set T'"
      then have "c = c1 \<or> c \<in> set T"
        using set_update_subset_insert[of T cell c1] by (auto simp: T'_def)
      then show "case key c of None \<Rightarrow> True | Some k \<Rightarrow> checkString k \<and> length k < 2 ^ 31"
        using kk c0T k1 by auto
    qed
    have "map key_bytes T' = map key_bytes T"
      using keyT' by (auto simp: list_eq_iff_nth_eq key_bytes_def T'_def)
    then have ko': "keys_ok (set_count self cell v tot)"
      unfolding keys_ok_def using kk' sa by (simp add: sc)
    show ?thesis using g' ch' co' ko' by (simp add: ht_inv_def)
  qed
qed

section \<open>Every reachable state satisfies the invariants\<close>

lemma histo_addr_0: "histo_addr 0 = 0"
  by (simp add: histo_addr_def)

lemma count_nonneg:
  assumes "ht_inv hash self" "cell < buckets self"
  shows "0 \<le> count (table self ! cell)"
proof -
  have "table self ! cell \<in> set (table self)"
    using assms by (simp add: ht_inv_def geom_def)
  then show ?thesis using assms(1) by (auto simp: ht_inv_def counts_ok_def)
qed

lemma increment_obj_inv:
  assumes inv: "ht_inv hash self" and d: "checkString data" "length data < 2 ^ 31"
    and r: "increment_obj hash self data delta = Some (e, self')"
  shows "ht_inv hash self'"
proof (cases "delta \<le> 0")
  case True
  then have "self' = self" using r by (auto simp: increment_obj_def split: if_splits)
  then show ?thesis using inv by simp
next
  case False
  then obtain cell s1 where a: "allocate_cell hash self data = Some (cell, s1)"
    using r by (auto simp: increment_obj_def split: option.splits)
  have i1: "ht_inv hash s1" and cl: "cell < buckets s1" and k: "key (table s1 ! cell) \<noteq> None"
    using allocate_cell_inv[OF inv d a] by simp_all
  have len: "cell < length (table s1)" using i1 cl by (simp add: ht_inv_def geom_def)
  show ?thesis
  proof (cases "count (table s1 ! cell) > LLONG_MAX - delta")
    case True
    then have "self' = s1" using r False a by (simp add: increment_obj_def)
    then show ?thesis using i1 by simp
  next
    case nov: False
    have "self' = set_count s1 cell (count (table s1 ! cell) + delta) (s64 (total s1 + delta))"
      using r False a nov len by (auto simp: increment_obj_def set_count_def Let_def)
    moreover have "0 \<le> count (table s1 ! cell) + delta"
      using count_nonneg[OF i1 cl] False by simp
    ultimately show ?thesis using set_count_inv[OF i1 cl _ disjI1[OF k]] by simp
  qed
qed

lemma setitem_inv:
  assumes inv: "ht_inv hash self" and d: "length data < 2 ^ 31"
    and r: "setitem hash self data pValue = Some (e, self')"
  shows "ht_inv hash self'"
proof (cases "checkString data")
  case False
  then have "self' = self" using r by (simp add: setitem_def)
  then show ?thesis using inv by simp
next
  case cs: True
  have g: "geom self" using inv by (simp add: ht_inv_def)
  show ?thesis
  proof (cases pValue)
    case None
    then obtain cell s1 where f: "find_cell hash self data False = Some (cell, s1)"
      using r cs by (auto simp: setitem_def split: option.splits)
    then have s1: "s1 = self" by (auto dest: find_cell_state)
    have cl: "cell < buckets self" using find_cell_lt[OF g f] .
    have "self' = set_count self cell 0 (s64 (total self - count (table self ! cell)))"
      using r cs None f s1 by (auto simp: setitem_def set_count_def Let_def histo_addr_0)
    then show ?thesis using set_count_inv[OF inv cl, of 0] by simp
  next
    case (Some v)
    show ?thesis
    proof (cases "v < 0")
      case True
      then have "self' = self" using r cs Some by (simp add: setitem_def)
      then show ?thesis using inv by simp
    next
      case vn: False
      show ?thesis
      proof (cases "v = 0")
        case True
        then obtain cell s1 where f: "find_cell hash self data False = Some (cell, s1)"
          using r cs Some by (auto simp: setitem_def split: option.splits)
        then have s1: "s1 = self" by (auto dest: find_cell_state)
        have cl: "cell < buckets self" using find_cell_lt[OF g f] .
        have "self' = set_count self cell 0 (s64 (total self + (0 - count (table self ! cell))))"
          using r cs Some True f s1 by (auto simp: setitem_def set_count_def Let_def)
        then show ?thesis using set_count_inv[OF inv cl, of 0] by simp
      next
        case False
        then obtain cell s1 where a: "allocate_cell hash self data = Some (cell, s1)"
          using r cs Some vn by (auto simp: setitem_def split: option.splits)
        have i1: "ht_inv hash s1" and cl: "cell < buckets s1"
          and k: "key (table s1 ! cell) \<noteq> None"
          using allocate_cell_inv[OF inv cs d a] by simp_all
        have "self' = set_count s1 cell v (s64 (total s1 + (v - count (table s1 ! cell))))"
          using r cs Some vn False a by (auto simp: setitem_def set_count_def Let_def)
        then show ?thesis using set_count_inv[OF i1 cl _ disjI1[OF k], of v] vn by simp
      qed
    qed
  qed
qed

lemma prune_int_inv:
  assumes "ht_inv hash self" "prune_int hash self boundary = Some self'"
  shows "ht_inv hash self'"
proof -
  from assms(2) obtain s where "first_empty (table self) 0 = Some s"
    by (auto simp: prune_int_def Let_def split: option.splits if_splits)
  then have "s < length (table self) \<and> key (table self ! s) = None"
    by (rule first_empty_Some)
  then have "\<exists>c \<in> set (table self). key c = None" by (metis nth_mem)
  then show ?thesis using prune_int_spec[OF assms(1), of boundary] assms(2) by auto
qed

lemma reachable_inv: "reachable hash self \<Longrightarrow> ht_inv hash self"
proof (induction rule: reachable.induct)
  case (reach_init w self)
  then show ?case by (rule init_inv)
next
  case (reach_increment self data delta e self')
  show ?case
  proof (cases "checkString data")
    case True
    then show ?thesis using reach_increment
      by (auto simp: increment_def intro: increment_obj_inv)
  next
    case False
    then show ?thesis using reach_increment by (simp add: increment_def)
  qed
next
  case (reach_setitem self data pValue e self')
  then show ?case by (auto intro: setitem_inv)
next
  case (reach_prune self boundary e self')
  then show ?case by (auto simp: prune_def split: option.splits intro: prune_int_inv)
qed

end
